theory Spec2Isabelle
  imports Complex_Main "HOL-Library.Word" "HOL-Library.AList"
begin

unbundle bit_operations_syntax

section \<open>Tiles and their open sides\<close>

text \<open>
  The seven tile types of \<open>BASE_EDGES\<close>. Directions are the numbers 0 (north), 1 (east),
  2 (south), 3 (west), as in the source. A cell key \<open>`${r}-${c}`\<close> is modelled by the pair
  of integers it encodes, and a port key \<open>`${id}:${dir}`\<close> by the pair of the tile id and
  the direction.
\<close>

datatype tile_type = Blank | Terminal | Straight | CurveLeft | CurveRight | TJunction | CrossCurve

type_synonym cell = "int \<times> int"
type_synonym port = "cell \<times> nat"

record tile =
  tid :: cell
  tr :: int
  tc :: int
  ttype :: tile_type
  rotation :: nat
  rotationDegrees :: int
  targetRotation :: nat

definition noEdges :: "bool list" where
  "noEdges = [False, False, False, False]"

fun BASE_EDGES :: "tile_type \<Rightarrow> bool list" where
  "BASE_EDGES Blank = [False, False, False, False]"
| "BASE_EDGES Terminal = [False, False, True, False]"
| "BASE_EDGES Straight = [True, False, True, False]"
| "BASE_EDGES CurveLeft = [True, False, False, True]"
| "BASE_EDGES CurveRight = [True, True, False, False]"
| "BASE_EDGES TJunction = [True, True, False, True]"
| "BASE_EDGES CrossCurve = [True, True, True, True]"

text \<open>\<open>xs[i]\<close> used as a condition: an index past the end reads \<open>undefined\<close>, which is falsy.\<close>

definition flag :: "bool list \<Rightarrow> nat \<Rightarrow> bool" where
  "flag xs i = (i < length xs \<and> xs ! i)"

text \<open>One step of the loop of \<open>rotateEdges\<close>: \<open>[n, e, s, w] = [w, n, e, s]\<close>.\<close>

definition turnEdges :: "bool list \<Rightarrow> bool list" where
  "turnEdges es = [flag es 3, flag es 0, flag es 1, flag es 2]"

fun rotateEdges :: "bool list \<Rightarrow> nat \<Rightarrow> bool list" where
  "rotateEdges es 0 = [flag es 0, flag es 1, flag es 2, flag es 3]"
| "rotateEdges es (Suc k) = rotateEdges (turnEdges es) k"

definition getEdges :: "'a tile_scheme \<Rightarrow> bool list" where
  "getEdges t = (if ttype t = CrossCurve then [True, True, True, True]
                 else rotateEdges (BASE_EDGES (ttype t)) (rotation t))"

definition oppositeDir :: "nat \<Rightarrow> nat" where
  "oppositeDir dir = (dir + 2) mod 4"

section \<open>Connections\<close>

definition byPosOf :: "tile list \<Rightarrow> cell \<Rightarrow> tile option" where
  "byPosOf tiles = fold (\<lambda>t m. m((tr t, tc t) \<mapsto> t)) tiles Map.empty"

definition neighborCells :: "int \<Rightarrow> int \<Rightarrow> cell list" where
  "neighborCells r c = [(r - 1, c), (r, c + 1), (r + 1, c), (r, c - 1)]"

definition connectedOf :: "(cell \<Rightarrow> tile option) \<Rightarrow> tile \<Rightarrow> bool list" where
  "connectedOf byPos t =
     map (\<lambda>dir. flag (getEdges t) dir \<and>
                 (case byPos (neighborCells (tr t) (tc t) ! dir) of
                    None \<Rightarrow> False
                  | Some n \<Rightarrow> flag (getEdges n) (oppositeDir dir)))
         [0, 1, 2, 3]"

definition computeConnections :: "tile list \<Rightarrow> (cell \<times> bool list) list" where
  "computeConnections tiles =
     fold (\<lambda>t m. AList.update (tid t) (connectedOf (byPosOf tiles) t) m) tiles []"

section \<open>Completion over the port graph\<close>

definition openDirs :: "bool list \<Rightarrow> nat list" where
  "openDirs edges = filter (\<lambda>dir. edges ! dir) [0..<length edges]"

definition getInternalPortPairs :: "'a tile_scheme \<Rightarrow> bool list \<Rightarrow> (nat \<times> nat) list" where
  "getInternalPortPairs t edges =
     (if ttype t = CrossCurve then
        (if rotation t mod 2 = 0 then [(0, 3), (1, 2)] else [(0, 1), (2, 3)])
      else (case openDirs edges of
              [a, b] \<Rightarrow> [(a, b)]
            | [a, b, c] \<Rightarrow> [(a, b), (b, c), (a, c)]
            | _ \<Rightarrow> []))"

text \<open>
  \<open>portAdj\<close> is a \<open>Map\<close> from a port to a \<open>Set\<close> of ports; both keep insertion order, so
  the map is an association list and each set a duplicate-free list that grows at its end.
\<close>

type_synonym portAdj = "(port \<times> port list) list"

definition setAdd :: "'a \<Rightarrow> 'a list \<Rightarrow> 'a list" where
  "setAdd x xs = (if x \<in> set xs then xs else xs @ [x])"

definition adjOf :: "portAdj \<Rightarrow> port \<Rightarrow> port list" where
  "adjOf adj p = (case map_of adj p of None \<Rightarrow> [] | Some ns \<Rightarrow> ns)"

definition hasPort :: "portAdj \<Rightarrow> port \<Rightarrow> bool" where
  "hasPort adj p = (map_of adj p \<noteq> None)"

definition link :: "port \<Rightarrow> port \<Rightarrow> portAdj \<Rightarrow> portAdj" where
  "link a b adj =
     (if hasPort adj a \<and> hasPort adj b then
        (let adj1 = AList.update a (setAdd b (adjOf adj a)) adj
         in AList.update b (setAdd a (adjOf adj1 b)) adj1)
      else adj)"

definition connectedFor :: "(cell \<times> bool list) list \<Rightarrow> cell \<Rightarrow> bool list" where
  "connectedFor connections i = (case map_of connections i of None \<Rightarrow> noEdges | Some cs \<Rightarrow> cs)"

definition addPort :: "cell \<Rightarrow> bool list \<Rightarrow> nat \<Rightarrow>
    portAdj \<times> port list \<times> port list \<Rightarrow> portAdj \<times> port list \<times> port list" where
  "addPort i conn dir = (\<lambda>(adj, dangling, allPorts).
     (if hasPort adj (i, dir) then adj else adj @ [((i, dir), [])],
      if \<not> flag conn dir then setAdd (i, dir) dangling else dangling,
      allPorts @ [(i, dir)]))"

definition portsOfTile :: "(cell \<times> bool list) list \<Rightarrow> tile \<Rightarrow>
    portAdj \<times> port list \<times> port list \<Rightarrow> portAdj \<times> port list \<times> port list" where
  "portsOfTile connections t s =
     (let edges = getEdges t;
          conn = connectedFor connections (tid t);
          (adj, dangling, allPorts) = fold (addPort (tid t) conn) (openDirs edges) s;
          adj' = fold (\<lambda>(a, b). link (tid t, a) (tid t, b)) (getInternalPortPairs t edges) adj
      in (adj', dangling, allPorts))"

definition externalOfTile :: "(cell \<Rightarrow> tile option) \<Rightarrow> (cell \<times> bool list) list \<Rightarrow> tile \<Rightarrow>
    portAdj \<Rightarrow> portAdj" where
  "externalOfTile byPos connections t adj =
     (let conn = connectedFor connections (tid t)
      in fold (\<lambda>dir a.
                if dir < 4 then
                  (case byPos (neighborCells (tr t) (tc t) ! dir) of
                     None \<Rightarrow> a
                   | Some n \<Rightarrow> link (tid t, dir) (tid n, oppositeDir dir) a)
                else a)
              (openDirs conn) adj)"

text \<open>
  The inner \<open>while (stack.length)\<close> loop of the flood fill. The head of the list is the top
  of the stack. Every turn either shortens the stack or visits a key of \<open>portAdj\<close> that was
  not visited before.
\<close>

function floodPorts :: "portAdj \<Rightarrow> port list \<Rightarrow> port list \<Rightarrow>
    port list \<times> port list \<times> bool \<Rightarrow> port list \<times> port list \<times> bool" where
  "floodPorts adj dangling [] s = s"
| "floodPorts adj dangling (current # stack) (visited, component, hasDangling) =
     (if current \<in> set visited then floodPorts adj dangling stack (visited, component, hasDangling)
      else (case map_of adj current of
              None \<Rightarrow> floodPorts adj dangling stack
                        (current # visited, component @ [current],
                         hasDangling \<or> current \<in> set dangling)
            | Some ns \<Rightarrow> floodPorts adj dangling
                        (rev (filter (\<lambda>n. n \<notin> set (current # visited)) ns) @ stack)
                        (current # visited, component @ [current],
                         hasDangling \<or> current \<in> set dangling)))"
  by pat_completeness auto
termination
proof (relation "inv_image (less_than <*lex*> less_than)
    (\<lambda>(adj, dangling, stack, visited, component, hasDangling).
        (card (fst ` set adj - set visited), length stack))", goal_cases)
  case 1
  show ?case by (intro wf_inv_image wf_lex_prod wf_less_than)
next
  case (2 adj dangling current stack visited component hasDangling)
  then show ?case by simp
next
  case (3 adj dangling current stack visited component hasDangling)
  then have "current \<notin> fst ` set adj"
    by (simp add: map_of_eq_None_iff)
  then have "fst ` set adj - set (current # visited) = fst ` set adj - set visited"
    by auto
  then show ?case by simp
next
  case (4 adj dangling current stack visited component hasDangling ns)
  then have "current \<in> fst ` set adj" "current \<notin> set visited"
    by (auto dest: map_of_SomeD intro: rev_image_eqI)
  then have "fst ` set adj - set (current # visited) \<subset> fst ` set adj - set visited"
    by auto
  then have "card (fst ` set adj - set (current # visited)) < card (fst ` set adj - set visited)"
    by (intro psubset_card_mono) auto
  then show ?case by simp
qed

definition floodFrom :: "portAdj \<Rightarrow> port list \<Rightarrow> port \<Rightarrow>
    port list \<times> port list \<Rightarrow> port list \<times> port list" where
  "floodFrom adj dangling p = (\<lambda>(visited, complete).
     if p \<in> set visited then (visited, complete)
     else (let (visited', component, hasDangling) =
                 floodPorts adj dangling [p] (visited, [], False)
           in (visited', if \<not> hasDangling then complete @ component else complete)))"

definition buildPorts :: "tile list \<Rightarrow> (cell \<times> bool list) list \<Rightarrow>
    portAdj \<times> port list \<times> port list" where
  "buildPorts tiles connections =
     (let (adj, dangling, allPorts) = fold (portsOfTile connections) tiles ([], [], []);
          adj' = fold (externalOfTile (byPosOf tiles) connections) tiles adj
      in (adj', dangling, allPorts))"

definition completePorts :: "tile list \<Rightarrow> (cell \<times> bool list) list \<Rightarrow> port list" where
  "completePorts tiles connections =
     (let (adj, dangling, allPorts) = buildPorts tiles connections
      in snd (fold (floodFrom adj dangling) allPorts ([], [])))"

definition computeCompleteDirs :: "tile list \<Rightarrow> (cell \<times> bool list) list \<Rightarrow>
    (cell \<times> bool list) list" where
  "computeCompleteDirs tiles connections =
     (let complete = completePorts tiles connections
      in fold (\<lambda>t m. AList.update (tid t) (map (\<lambda>dir. (tid t, dir) \<in> set complete) [0, 1, 2, 3]) m)
           tiles [])"

section \<open>Progression settings and their seed text\<close>

text \<open>
  A JavaScript string is a sequence of UTF-16 code units. The value \<open>Number(settings[key])\<close>
  of a field is \<open>Some q\<close> when it is a finite number \<open>q\<close> and \<open>None\<close> otherwise (the field is
  missing, or not a number, or infinite). The settings argument itself is \<open>None\<close> when it is not
  an object. A digit group of at least \<open>2^1024 - 2^970\<close> converts to \<open>Infinity\<close>; below that,
  the conversion to a double is monotone and exact up to \<open>2^53\<close>, so clamping the converted
  number to a range below 100 gives what clamping the decimal value gives.
\<close>

type_synonym js_string = "int list"

record 'a progression =
  gapRate :: 'a
  gapClusters :: 'a
  curveBias :: 'a
  terminalRate :: 'a
  terminalSpacing :: 'a
  straightRunMax :: 'a
  emptyRowMax :: 'a
  emptyColMax :: 'a
  centerBias :: 'a
  variant :: 'a

definition DEFAULT_PROGRESSION_SETTINGS :: "int progression" where
  "DEFAULT_PROGRESSION_SETTINGS = \<lparr>gapRate = 18, gapClusters = 2, curveBias = 28,
     terminalRate = 18, terminalSpacing = 2, straightRunMax = 4, emptyRowMax = 2,
     emptyColMax = 2, centerBias = 0, variant = 0\<rparr>"

definition clampValue :: "int \<Rightarrow> int \<Rightarrow> int \<Rightarrow> int" where
  "clampValue v lo hi = min hi (max lo v)"

definition mathRound :: "rat \<Rightarrow> int" where
  "mathRound q = \<lfloor>q + 1 / 2\<rfloor>"

definition normalizeField :: "rat option \<Rightarrow> int \<Rightarrow> int \<Rightarrow> int \<Rightarrow> int" where
  "normalizeField raw lo hi dflt =
     (case raw of None \<Rightarrow> dflt | Some q \<Rightarrow> clampValue (mathRound q) lo hi)"

definition normalizeProgressionSettings :: "rat option progression option \<Rightarrow> int progression" where
  "normalizeProgressionSettings settings =
     (case settings of
        None \<Rightarrow> DEFAULT_PROGRESSION_SETTINGS
      | Some s \<Rightarrow>
         \<lparr>gapRate = normalizeField (gapRate s) 0 96 18,
          gapClusters = normalizeField (gapClusters s) 0 4 2,
          curveBias = normalizeField (curveBias s) 20 40 28,
          terminalRate = normalizeField (terminalRate s) 12 24 18,
          terminalSpacing = normalizeField (terminalSpacing s) 1 5 2,
          straightRunMax = normalizeField (straightRunMax s) 2 6 4,
          emptyRowMax = normalizeField (emptyRowMax s) 0 5 2,
          emptyColMax = normalizeField (emptyColMax s) 0 5 2,
          centerBias = normalizeField (centerBias s) 0 100 0,
          variant = normalizeField (variant s) 0 9 0\<rparr>)"

fun showNat :: "nat \<Rightarrow> js_string" where
  "showNat n = (if n < 10 then [48 + int n] else showNat (n div 10) @ [48 + int (n mod 10)])"

declare showNat.simps [simp del]

definition showInt :: "int \<Rightarrow> js_string" where
  "showInt i = (if i < 0 then 45 # showNat (nat (- i)) else showNat (nat i))"

definition buildProgressionSeed :: "rat option progression option \<Rightarrow> js_string" where
  "buildProgressionSeed settings =
     (let n = normalizeProgressionSettings settings
      in 80 # showInt (gapRate n) @ 45 # showInt (gapClusters n) @ 45 # showInt (curveBias n)
           @ 45 # showInt (terminalRate n) @ 45 # showInt (straightRunMax n)
           @ 45 # showInt (terminalSpacing n) @ 45 # showInt (emptyRowMax n)
           @ 45 # showInt (emptyColMax n) @ 45 # showInt (centerBias n)
           @ 45 # showInt (variant n))"

fun splitOn :: "int \<Rightarrow> js_string \<Rightarrow> js_string list" where
  "splitOn sep [] = [[]]"
| "splitOn sep (x # xs) =
     (if x = sep then [] # splitOn sep xs
      else (case splitOn sep xs of [] \<Rightarrow> [[x]] | p # ps \<Rightarrow> (x # p) # ps))"

definition isDigit :: "int \<Rightarrow> bool" where
  "isDigit d = (48 \<le> d \<and> d \<le> 57)"

definition isDigits :: "js_string \<Rightarrow> bool" where
  "isDigits ds = (ds \<noteq> [] \<and> list_all isDigit ds)"

definition digitsValue :: "js_string \<Rightarrow> int" where
  "digitsValue ds = foldl (\<lambda>acc d. acc * 10 + (d - 48)) 0 ds"

definition numberOf :: "js_string \<Rightarrow> rat option" where
  "numberOf ds = (let v = digitsValue ds
                  in if v < 2 ^ 1024 - 2 ^ 970 then Some (of_int v) else None)"

definition matchSeed :: "nat \<Rightarrow> js_string \<Rightarrow> js_string list option" where
  "matchSeed n s =
     (case s of
        [] \<Rightarrow> None
      | p # rest \<Rightarrow>
          (if p = 80 \<or> p = 112 then
             (let groups = splitOn 45 rest
              in if length groups = n \<and> list_all isDigits groups then Some groups else None)
           else None))"

definition absent :: "rat option progression" where
  "absent = \<lparr>gapRate = None, gapClusters = None, curveBias = None, terminalRate = None,
     terminalSpacing = None, straightRunMax = None, emptyRowMax = None, emptyColMax = None,
     centerBias = None, variant = None\<rparr>"

definition parseProgressionSeed :: "js_string \<Rightarrow> int progression option" where
  "parseProgressionSeed seedText =
     (case matchSeed 10 seedText of
        Some m \<Rightarrow> Some (normalizeProgressionSettings (Some
          \<lparr>gapRate = numberOf (m ! 0), gapClusters = numberOf (m ! 1),
           curveBias = numberOf (m ! 2), terminalRate = numberOf (m ! 3),
           terminalSpacing = numberOf (m ! 5), straightRunMax = numberOf (m ! 4),
           emptyRowMax = numberOf (m ! 6), emptyColMax = numberOf (m ! 7),
           centerBias = numberOf (m ! 8), variant = numberOf (m ! 9)\<rparr>))
      | None \<Rightarrow>
     (case matchSeed 9 seedText of
        Some m \<Rightarrow> Some (normalizeProgressionSettings (Some
          \<lparr>gapRate = numberOf (m ! 0), gapClusters = numberOf (m ! 1),
           curveBias = numberOf (m ! 2), terminalRate = numberOf (m ! 3),
           terminalSpacing = numberOf (m ! 5), straightRunMax = numberOf (m ! 4),
           emptyRowMax = numberOf (m ! 6), emptyColMax = numberOf (m ! 7),
           centerBias = None, variant = numberOf (m ! 8)\<rparr>))
      | None \<Rightarrow>
     (case matchSeed 6 seedText of
        Some m \<Rightarrow> Some (normalizeProgressionSettings (Some
          \<lparr>gapRate = numberOf (m ! 0), gapClusters = numberOf (m ! 1),
           curveBias = numberOf (m ! 2), terminalRate = numberOf (m ! 3),
           terminalSpacing = None, straightRunMax = numberOf (m ! 4),
           emptyRowMax = None, emptyColMax = None,
           centerBias = None, variant = numberOf (m ! 5)\<rparr>))
      | None \<Rightarrow> None)))"

definition jsString :: "string \<Rightarrow> js_string" where
  "jsString s = map (\<lambda>ch. int (of_char ch)) s"

section \<open>Seed hashing and the pseudo-random generator\<close>

type_synonym rng = int

definition toUint32 :: "int \<Rightarrow> int" where
  "toUint32 x = take_bit 32 x"

definition imul :: "int \<Rightarrow> int \<Rightarrow> int" where
  "imul a b = toUint32 (a * b)"

definition hashStringToInt :: "js_string \<Rightarrow> int" where
  "hashStringToInt str = fold (\<lambda>ch h. imul (toUint32 (h XOR ch)) 16777619) str 2166136261"

definition mulberry32 :: "int \<Rightarrow> rng" where
  "mulberry32 seed = toUint32 seed"

definition randomNext :: "rng \<Rightarrow> int \<times> rng" where
  "randomNext t =
     (let t1 = t + 0x6D2B79F5;
          x0 = toUint32 t1;
          x1 = imul (x0 XOR drop_bit 15 x0) (x0 OR 1);
          x2 = x1 XOR toUint32 (x1 + imul (x1 XOR drop_bit 7 x1) (x1 OR 61))
      in (x2 XOR drop_bit 14 x2, t1))"

definition randIndex :: "int \<Rightarrow> nat \<Rightarrow> nat" where
  "randIndex u n = nat ((u * int n) div 4294967296)"

definition below085 :: "int \<Rightarrow> bool" where
  "below085 u = (u * 100 < 85 * 4294967296)"

definition below018 :: "int \<Rightarrow> bool" where
  "below018 u = (u * 100 < 18 * 4294967296)"

section \<open>The edge map\<close>

type_synonym edgeMap = "(cell \<times> bool list) list"

definition edgesAt :: "edgeMap \<Rightarrow> cell \<Rightarrow> bool list" where
  "edgesAt m k = (case map_of m k of None \<Rightarrow> noEdges | Some e \<Rightarrow> e)"

definition degree :: "bool list \<Rightarrow> nat" where
  "degree e = length (filter id e)"

definition neighborOf :: "int \<Rightarrow> int \<Rightarrow> nat \<Rightarrow> cell" where
  "neighborOf r c dir =
     (r + (if dir = 2 then 1 else if dir = 0 then - 1 else 0),
      c + (if dir = 1 then 1 else if dir = 3 then - 1 else 0))"

definition setLink :: "edgeMap \<Rightarrow> cell \<Rightarrow> cell \<Rightarrow> nat \<Rightarrow> bool \<Rightarrow> edgeMap" where
  "setLink m a b dir v =
     (let edgesA = (edgesAt m a)[dir := v];
          edgesB = (edgesAt m b)[oppositeDir dir := v]
      in AList.update b edgesB (AList.update a edgesA m))"

section \<open>Carving the spanning tree\<close>

type_synonym frame = "int \<times> int \<times> nat option"

definition carveNeighbors :: "int \<Rightarrow> int \<Rightarrow> cell list \<Rightarrow> int \<Rightarrow> int \<Rightarrow> (int \<times> int \<times> nat) list" where
  "carveNeighbors rows cols visited r c =
     (if r > 0 \<and> (r - 1, c) \<notin> set visited then [(r - 1, c, 0)] else []) @
     (if c < cols - 1 \<and> (r, c + 1) \<notin> set visited then [(r, c + 1, 1)] else []) @
     (if r < rows - 1 \<and> (r + 1, c) \<notin> set visited then [(r + 1, c, 2)] else []) @
     (if c > 0 \<and> (r, c - 1) \<notin> set visited then [(r, c - 1, 3)] else [])"

definition pickNeighbor :: "nat option \<Rightarrow> (int \<times> int \<times> nat) list \<Rightarrow> rng \<Rightarrow>
    (int \<times> int \<times> nat) \<times> rng" where
  "pickNeighbor prevDir neighbors g =
     (let turnNeighbors =
            (case prevDir of
               None \<Rightarrow> []
             | Some p \<Rightarrow> filter (\<lambda>n. snd (snd n) = (p + 1) mod 4 \<or> snd (snd n) = (p + 3) mod 4)
                         neighbors)
      in if turnNeighbors \<noteq> [] then
           (let (u, g1) = randomNext g; (v, g2) = randomNext g1
            in if below085 u then (turnNeighbors ! randIndex v (length turnNeighbors), g2)
               else (neighbors ! randIndex v (length neighbors), g2))
         else (let (v, g1) = randomNext g
               in (neighbors ! randIndex v (length neighbors), g1)))"

fun loR :: "frame list \<Rightarrow> int" where
  "loR [] = 0" | "loR ((r, c, p) # st) = min r (loR st)"
fun hiR :: "int \<Rightarrow> frame list \<Rightarrow> int" where
  "hiR rows [] = rows - 1" | "hiR rows ((r, c, p) # st) = max r (hiR rows st)"
fun loC :: "frame list \<Rightarrow> int" where
  "loC [] = 0" | "loC ((r, c, p) # st) = min c (loC st)"
fun hiC :: "int \<Rightarrow> frame list \<Rightarrow> int" where
  "hiC cols [] = cols - 1" | "hiC cols ((r, c, p) # st) = max c (hiC cols st)"

definition region :: "int \<Rightarrow> int \<Rightarrow> frame list \<Rightarrow> cell set" where
  "region rows cols st = {loR st..hiR rows st} \<times> {loC st..hiC cols st}"

lemma toUint32_range: "0 \<le> toUint32 x \<and> toUint32 x < 4294967296"
  using take_bit_int_less_exp [of 32 x] by (simp add: toUint32_def)

lemma imul_range: "0 \<le> imul a b \<and> imul a b < 4294967296"
  unfolding imul_def by (rule toUint32_range)

lemma xor_shift_range:
  fixes x :: int
  assumes "0 \<le> x" and "x < 4294967296"
  shows "0 \<le> x XOR drop_bit k x \<and> x XOR drop_bit k x < 4294967296"
proof -
  have "x div 2 ^ k \<le> x div 1"
    using assms(1) by (intro zdiv_mono2) simp_all
  then have d: "drop_bit k x \<le> x"
    by (simp add: drop_bit_eq_div)
  have "0 \<le> drop_bit k x"
    using assms(1) by simp
  moreover have "x XOR drop_bit k x < 2 ^ 32"
    using assms d by (intro XOR_upper) simp_all
  ultimately show ?thesis
    using assms(1) by simp
qed

lemma randomNext_range: "randomNext g = (u, g') \<Longrightarrow> 0 \<le> u \<and> u < 4294967296"
proof -
  assume r: "randomNext g = (u, g')"
  define x0 where "x0 = toUint32 (g + 0x6D2B79F5)"
  define x1 where "x1 = imul (x0 XOR drop_bit 15 x0) (x0 OR 1)"
  define y where "y = toUint32 (x1 + imul (x1 XOR drop_bit 7 x1) (x1 OR 61))"
  define x2 where "x2 = x1 XOR y"
  have "fst (randomNext g) = x2 XOR drop_bit 14 x2"
    by (simp only: randomNext_def Let_def x0_def x1_def y_def x2_def fst_conv)
  then have u: "u = x2 XOR drop_bit 14 x2"
    by (simp only: r fst_conv)
  have "0 \<le> x1" "x1 < 2 ^ 32" "0 \<le> y" "y < 2 ^ 32"
    using toUint32_range [of "x1 + imul (x1 XOR drop_bit 7 x1) (x1 OR 61)"]
      imul_range [of "x0 XOR drop_bit 15 x0" "x0 OR 1"]
    by (simp_all add: x1_def y_def)
  then have "0 \<le> x2" "x2 < 4294967296"
    unfolding x2_def using XOR_upper [of x1 32 y] by simp_all
  then show ?thesis
    unfolding u by (rule xor_shift_range)
qed

lemma randIndex_less: "0 \<le> u \<Longrightarrow> u < 4294967296 \<Longrightarrow> 0 < n \<Longrightarrow> randIndex u n < n"
proof -
  assume u: "0 \<le> u" "u < 4294967296" and n: "0 < n"
  have "u * int n < 4294967296 * int n"
    using u n by (simp add: mult_strict_right_mono)
  then have "(u * int n) div 4294967296 < int n"
    by arith
  moreover have "0 \<le> u * int n"
    using u by simp
  then have "0 \<le> (u * int n) div 4294967296"
    by arith
  ultimately show ?thesis by (simp add: randIndex_def)
qed

lemma randomNext_index: "randomNext g = (u, g') \<Longrightarrow> xs \<noteq> [] \<Longrightarrow> xs ! randIndex u (length xs) \<in> set xs"
  using randomNext_range [of g u g'] randIndex_less [of u "length xs"] by simp

lemma pickNeighbor_mem:
  assumes "neighbors \<noteq> []" and "pickNeighbor prevDir neighbors g = (n, g')"
  shows "n \<in> set neighbors"
proof -
  define tn where "tn = (case prevDir of None \<Rightarrow> [] | Some p \<Rightarrow>
      filter (\<lambda>n. snd (snd n) = (p + 1) mod 4 \<or> snd (snd n) = (p + 3) mod 4) neighbors)"
  have sub: "set tn \<subseteq> set neighbors"
    by (auto simp: tn_def split: option.splits)
  obtain u g1 where 1: "randomNext g = (u, g1)" by (cases "randomNext g")
  obtain v g2 where 2: "randomNext g1 = (v, g2)" by (cases "randomNext g1")
  show ?thesis
  proof (cases "tn = []")
    case True
    with assms 1 show ?thesis
      using randomNext_index [OF 1 assms(1)]
      by (auto simp: pickNeighbor_def tn_def [symmetric])
  next
    case False
    with assms 1 2 sub show ?thesis
      using randomNext_index [OF 2 assms(1)] randomNext_index [OF 2 False]
      by (auto simp: pickNeighbor_def tn_def [symmetric] split: if_splits)
  qed
qed

lemma loR_le: "loR st \<le> 0" by (induction st rule: loR.induct) auto
lemma loC_le: "loC st \<le> 0" by (induction st rule: loC.induct) auto
lemma hiR_ge: "rows - 1 \<le> hiR rows st" by (induction rows st rule: hiR.induct) auto
lemma hiC_ge: "cols - 1 \<le> hiC cols st" by (induction cols st rule: hiC.induct) auto

lemma finite_region: "finite (region rows cols st)"
  by (simp add: region_def)

lemma region_pop: "region rows cols st \<subseteq> region rows cols (x # st)"
  by (cases x) (auto simp: region_def)

lemma carveNeighbors_region:
  assumes "(nr, nc, dir) \<in> set (carveNeighbors rows cols visited r c)"
  shows "(nr, nc) \<notin> set visited"
    and "(nr, nc) \<in> region rows cols ((r, c, p) # st)"
    and "region rows cols ((nr, nc, q) # (r, c, p) # st) = region rows cols ((r, c, p) # st)"
proof -
  have v: "(nr, nc) \<notin> set visited"
    and b: "min r 0 \<le> nr" "nr \<le> max r (rows - 1)" "min c 0 \<le> nc" "nc \<le> max c (cols - 1)"
    using assms by (auto simp: carveNeighbors_def split: if_splits)
  show "(nr, nc) \<notin> set visited" by (rule v)
  have r: "loR ((r, c, p) # st) \<le> nr" "nr \<le> hiR rows ((r, c, p) # st)"
      "loC ((r, c, p) # st) \<le> nc" "nc \<le> hiC cols ((r, c, p) # st)"
    using b loR_le [of st] loC_le [of st] hiR_ge [of rows st] hiC_ge [of cols st] by auto
  then show "(nr, nc) \<in> region rows cols ((r, c, p) # st)"
    by (simp add: region_def)
  from r show "region rows cols ((nr, nc, q) # (r, c, p) # st) = region rows cols ((r, c, p) # st)"
    by (simp add: region_def min_absorb2 max_absorb2)
qed

function carve :: "int \<Rightarrow> int \<Rightarrow> edgeMap \<times> cell list \<times> frame list \<times> rng \<Rightarrow> edgeMap \<times> rng" where
  "carve rows cols (m, visited, [], g) = (m, g)"
| "carve rows cols (m, visited, (r, c, prevDir) # stack, g) =
     (let neighbors = carveNeighbors rows cols visited r c
      in if neighbors = [] then carve rows cols (m, visited, stack, g)
         else (let ((nr, nc, dir), g') = pickNeighbor prevDir neighbors g;
                   m' = setLink m (r, c) (nr, nc) dir True
               in carve rows cols
                    (m', (nr, nc) # visited, (nr, nc, Some dir) # (r, c, prevDir) # stack, g')))"
  by pat_completeness auto
termination
proof (relation "inv_image (less_than <*lex*> less_than)
    (\<lambda>(rows, cols, m, visited, stack, g).
        (card (region rows cols stack - set visited), length stack))", goal_cases)
  case 1
  show ?case by (intro wf_inv_image wf_lex_prod wf_less_than)
next
  case (2 rows cols m visited r c prevDir stack g neighbors)
  have "card (region rows cols stack - set visited)
      \<le> card (region rows cols ((r, c, prevDir) # stack) - set visited)"
    by (intro card_mono finite_Diff finite_region Diff_mono region_pop subset_refl)
  then show ?case by auto
next
  case (3 rows cols m visited r c prevDir stack g neighbors x xa y xb ya xc yb)
  then have pk: "pickNeighbor prevDir neighbors g = ((xb, xc, yb), y)" and ne: "neighbors \<noteq> []"
    by simp_all
  from pickNeighbor_mem [OF ne pk]
  have mem: "(xb, xc, yb) \<in> set (carveNeighbors rows cols visited r c)"
    using 3 by simp
  note f = carveNeighbors_region(1) [OF mem]
    carveNeighbors_region(2) [OF mem, where p = prevDir and st = stack]
    carveNeighbors_region(3) [OF mem, where p = prevDir and st = stack and q = "Some yb"]
  have "region rows cols ((xb, xc, Some yb) # (r, c, prevDir) # stack) - set ((xb, xc) # visited)
      \<subset> region rows cols ((r, c, prevDir) # stack) - set visited"
    using f(1,2) unfolding f(3) by auto
  then have "card (region rows cols ((xb, xc, Some yb) # (r, c, prevDir) # stack) - set ((xb, xc) # visited))
      < card (region rows cols ((r, c, prevDir) # stack) - set visited)"
    by (intro psubset_card_mono finite_Diff finite_region)
  then show ?case by simp
qed

definition carveStart :: "int \<Rightarrow> int \<Rightarrow> rng \<Rightarrow> edgeMap \<times> rng" where
  "carveStart rows cols g = carve rows cols ([((0, 0), noEdges)], [(0, 0)], [(0, 0, None)], g)"

section \<open>Shaping the topology\<close>

definition isBoundaryCell :: "int \<Rightarrow> int \<Rightarrow> int \<Rightarrow> int \<Rightarrow> bool" where
  "isBoundaryCell r c rows cols = (r = 0 \<or> c = 0 \<or> r = rows - 1 \<or> c = cols - 1)"

definition inGrid :: "int \<Rightarrow> int \<Rightarrow> cell \<Rightarrow> bool" where
  "inGrid rows cols k = (\<not> (fst k < 0 \<or> snd k < 0 \<or> fst k \<ge> rows \<or> snd k \<ge> cols))"

definition gridCells :: "int \<Rightarrow> int \<Rightarrow> cell list" where
  "gridCells rows cols = concat (map (\<lambda>r. map (\<lambda>c. (r, c)) [0..cols - 1]) [0..rows - 1])"

definition cellsOfDegree :: "int \<Rightarrow> int \<Rightarrow> edgeMap \<Rightarrow> nat \<Rightarrow> cell list" where
  "cellsOfDegree rows cols m d = filter (\<lambda>k. degree (edgesAt m k) = d) (gridCells rows cols)"

definition countCrosses :: "int \<Rightarrow> int \<Rightarrow> edgeMap \<Rightarrow> nat" where
  "countCrosses rows cols m = length (cellsOfDegree rows cols m 4)"

definition countTJunctions :: "int \<Rightarrow> int \<Rightarrow> edgeMap \<Rightarrow> nat" where
  "countTJunctions rows cols m = length (cellsOfDegree rows cols m 3)"

definition maxCrosses :: nat where
  "maxCrosses = 1"

definition maxTJunctions :: "int \<Rightarrow> int \<Rightarrow> nat" where
  "maxTJunctions rows cols = nat (max 2 ((rows * cols) div 6))"

definition extraEdgesTarget :: "int \<Rightarrow> int \<Rightarrow> nat" where
  "extraEdgesTarget rows cols = nat (max 1 ((rows * cols) div 7))"

definition candidates :: "int \<Rightarrow> int \<Rightarrow> (int \<times> int \<times> int \<times> int) list" where
  "candidates rows cols =
     concat (map (\<lambda>(r, c). (if r < rows - 1 then [(r, c, r + 1, c)] else []) @
                            (if c < cols - 1 then [(r, c, r, c + 1)] else []))
                 (gridCells rows cols))"

definition swapAt :: "nat \<Rightarrow> nat \<Rightarrow> 'a list \<Rightarrow> 'a list" where
  "swapAt i j xs = xs[i := xs ! j, j := xs ! i]"

function extraEdges :: "int \<Rightarrow> int \<Rightarrow> nat \<Rightarrow>
    (int \<times> int \<times> int \<times> int) list \<times> edgeMap \<times> nat \<times> rng \<Rightarrow> edgeMap \<times> rng" where
  "extraEdges rows cols i (cands, m, added, g) =
     (if i < length cands \<and> added < extraEdgesTarget rows cols then
        (let (u, g1) = randomNext g;
             swapIndex = i + randIndex u (length cands - i);
             cands1 = swapAt i swapIndex cands;
             (r1, c1, r2, c2) = cands1 ! i;
             dir = (if r2 > r1 then 2 else if r2 < r1 then 0 else if c2 > c1 then 1 else 3);
             edgesA = edgesAt m (r1, c1);
             edgesB = edgesAt m (r2, c2)
         in if flag edgesA dir then extraEdges rows cols (i + 1) (cands1, m, added, g1)
            else if degree edgesA \<ge> 4 \<or> degree edgesB \<ge> 4
              then extraEdges rows cols (i + 1) (cands1, m, added, g1)
            else if degree edgesA + 1 = 4 \<and> isBoundaryCell r1 c1 rows cols
              then extraEdges rows cols (i + 1) (cands1, m, added, g1)
            else if degree edgesB + 1 = 4 \<and> isBoundaryCell r2 c2 rows cols
              then extraEdges rows cols (i + 1) (cands1, m, added, g1)
            else (let m1 = setLink m (r1, c1) (r2, c2) dir True
                  in if countCrosses rows cols m1 \<le> maxCrosses
                     then extraEdges rows cols (i + 1) (cands1, m1, added + 1, g1)
                     else extraEdges rows cols (i + 1)
                            (cands1, setLink m1 (r1, c1) (r2, c2) dir False, added, g1)))
      else (m, g))"
  by pat_completeness auto
termination
  by (relation "measure (\<lambda>(rows, cols, i, cands, m, added, g). length cands - i)")
     (auto simp: swapAt_def)

definition promotionTargets :: "int \<Rightarrow> int \<Rightarrow> edgeMap \<Rightarrow> cell list" where
  "promotionTargets rows cols m =
     filter (\<lambda>k. degree (edgesAt m k) = 3)
       (concat (map (\<lambda>r. map (\<lambda>c. (r, c)) [1..cols - 2]) [1..rows - 2]))"

function shuffle :: "nat \<Rightarrow> 'a list \<times> rng \<Rightarrow> 'a list \<times> rng" where
  "shuffle i (xs, g) =
     (if i < length xs then
        (let (u, g1) = randomNext g;
             swapIndex = i + randIndex u (length xs - i)
         in shuffle (i + 1) (swapAt i swapIndex xs, g1))
      else (xs, g))"
  by pat_completeness auto
termination
  by (relation "measure (\<lambda>(i, xs, g). length xs - i)") (auto simp: swapAt_def)

fun promoteDirs :: "int \<Rightarrow> int \<Rightarrow> edgeMap \<Rightarrow> int \<Rightarrow> int \<Rightarrow> nat list \<Rightarrow> edgeMap" where
  "promoteDirs rows cols m r c [] = m"
| "promoteDirs rows cols m r c (dir # dirs) =
     (let (nr, nc) = neighborOf r c dir;
          neighborDegree = degree (edgesAt m (nr, nc))
      in if neighborDegree \<ge> 4 then promoteDirs rows cols m r c dirs
         else if neighborDegree = 3 \<and> isBoundaryCell nr nc rows cols
           then promoteDirs rows cols m r c dirs
         else (let m1 = setLink m (r, c) (nr, nc) dir True
               in if countCrosses rows cols m1 > maxCrosses
                  then promoteDirs rows cols (setLink m1 (r, c) (nr, nc) dir False) r c dirs
                  else m1))"

fun promoteAll :: "int \<Rightarrow> int \<Rightarrow> edgeMap \<Rightarrow> cell list \<Rightarrow> edgeMap" where
  "promoteAll rows cols m [] = m"
| "promoteAll rows cols m ((r, c) # targets) =
     (if countCrosses rows cols m \<ge> maxCrosses then m
      else promoteAll rows cols
             (promoteDirs rows cols m r c
                (filter (\<lambda>dir. \<not> flag (edgesAt m (r, c)) dir) [0, 1, 2, 3]))
             targets)"

datatype mirror_mode = MirrorV | MirrorH | MirrorVH

fun mirrorCoord :: "int \<Rightarrow> int \<Rightarrow> int \<Rightarrow> int \<Rightarrow> mirror_mode \<Rightarrow> cell" where
  "mirrorCoord r c rows cols MirrorV = (r, cols - 1 - c)"
| "mirrorCoord r c rows cols MirrorH = (rows - 1 - r, c)"
| "mirrorCoord r c rows cols MirrorVH = (rows - 1 - r, cols - 1 - c)"

definition flipV :: "nat \<Rightarrow> nat" where
  "flipV d = (if d = 1 then 3 else if d = 3 then 1 else d)"

definition flipH :: "nat \<Rightarrow> nat" where
  "flipH d = (if d = 0 then 2 else if d = 2 then 0 else d)"

fun mirrorDir :: "nat \<Rightarrow> mirror_mode \<Rightarrow> nat" where
  "mirrorDir dir MirrorV = flipV dir"
| "mirrorDir dir MirrorH = flipH dir"
| "mirrorDir dir MirrorVH = flipH (flipV dir)"

definition canAddEdge :: "edgeMap \<Rightarrow> int \<Rightarrow> int \<Rightarrow> int \<Rightarrow> int \<Rightarrow> nat \<Rightarrow> nat \<Rightarrow> bool" where
  "canAddEdge m r1 c1 r2 c2 dir maxDegree =
     (let edgesA = edgesAt m (r1, c1); edgesB = edgesAt m (r2, c2)
      in if flag edgesA dir then False
         else if degree edgesA + 1 > maxDegree \<or> degree edgesB + 1 > maxDegree then False
         else True)"

definition addEdge :: "edgeMap \<Rightarrow> int \<Rightarrow> int \<Rightarrow> int \<Rightarrow> int \<Rightarrow> nat \<Rightarrow> edgeMap" where
  "addEdge m r1 c1 r2 c2 dir = setLink m (r1, c1) (r2, c2) dir True"

definition mirrorStep :: "int \<Rightarrow> int \<Rightarrow> cell \<Rightarrow> nat \<Rightarrow> mirror_mode \<Rightarrow> edgeMap \<times> rng \<Rightarrow> edgeMap \<times> rng" where
  "mirrorStep rows cols key dir mode = (\<lambda>(m, g).
     (let (mr, mc) = mirrorCoord (fst key) (snd key) rows cols mode;
          mdir = mirrorDir dir mode;
          (u, g1) = randomNext g
      in if below018 u then (m, g1)
         else (let (nr, nc) = neighborOf mr mc mdir
               in if nr < 0 \<or> nc < 0 \<or> nr \<ge> rows \<or> nc \<ge> cols then (m, g1)
                  else if canAddEdge m mr mc nr nc mdir 3 then (addEdge m mr mc nr nc mdir, g1)
                  else (m, g1))))"

definition mirrorEdge :: "int \<Rightarrow> int \<Rightarrow> cell \<Rightarrow> nat \<Rightarrow> edgeMap \<times> rng \<Rightarrow> edgeMap \<times> rng" where
  "mirrorEdge rows cols key dir = (\<lambda>(m, g).
     if flag (edgesAt m key) dir
     then fold (mirrorStep rows cols key dir) [MirrorV, MirrorH, MirrorVH] (m, g)
     else (m, g))"

definition softSymmetry :: "int \<Rightarrow> int \<Rightarrow> edgeMap \<times> rng \<Rightarrow> edgeMap \<times> rng" where
  "softSymmetry rows cols = (\<lambda>(m, g).
     fold (\<lambda>key. fold (mirrorEdge rows cols key) [0, 1, 2, 3]) (map fst m) (m, g))"

definition dropBoundaryCross :: "int \<Rightarrow> int \<Rightarrow> cell \<Rightarrow> edgeMap \<times> rng \<Rightarrow> edgeMap \<times> rng" where
  "dropBoundaryCross rows cols key = (\<lambda>(m, g).
     if \<not> isBoundaryCell (fst key) (snd key) rows cols then (m, g)
     else if degree (edgesAt m key) \<noteq> 4 then (m, g)
     else (let dirs = filter (\<lambda>d. flag (edgesAt m key) d) [0, 1, 2, 3];
               (u, g1) = randomNext g;
               dropDir = dirs ! randIndex u (length dirs)
           in (setLink m key (neighborOf (fst key) (snd key) dropDir) dropDir False, g1)))"

definition defensivePass :: "int \<Rightarrow> int \<Rightarrow> edgeMap \<times> rng \<Rightarrow> edgeMap \<times> rng" where
  "defensivePass rows cols s = fold (dropBoundaryCross rows cols) (gridCells rows cols) s"

section \<open>Removing edges without disconnecting the graph\<close>

definition openNeighbors :: "int \<Rightarrow> int \<Rightarrow> edgeMap \<Rightarrow> cell \<Rightarrow> cell list" where
  "openNeighbors rows cols m key =
     map (\<lambda>dir. neighborCells (fst key) (snd key) ! dir)
       (filter (\<lambda>dir. flag (edgesAt m key) dir \<and>
                      inGrid rows cols (neighborCells (fst key) (snd key) ! dir))
          [0, 1, 2, 3])"

definition gridSet :: "int \<Rightarrow> int \<Rightarrow> cell set" where
  "gridSet rows cols = {0..rows - 1} \<times> {0..cols - 1}"

lemma openNeighbors_grid: "set (openNeighbors rows cols m key) \<subseteq> gridSet rows cols"
proof
  fix x
  assume "x \<in> set (openNeighbors rows cols m key)"
  then have "inGrid rows cols x"
    unfolding openNeighbors_def set_map set_filter by blast
  then show "x \<in> gridSet rows cols"
    by (cases x) (auto simp: inGrid_def gridSet_def)
qed

function reach :: "int \<Rightarrow> int \<Rightarrow> edgeMap \<Rightarrow> cell list \<times> cell list \<Rightarrow> cell list" where
  "reach rows cols m ([], visited) = visited"
| "reach rows cols m (key # stack, visited) =
     (if key \<in> set visited then reach rows cols m (stack, visited)
      else reach rows cols m (rev (openNeighbors rows cols m key) @ stack, key # visited))"
  by pat_completeness auto
termination
proof (relation "inv_image (less_than <*lex*> less_than)
    (\<lambda>(rows, cols, m, stack, visited).
        (card ((gridSet rows cols \<union> set stack) - set visited), length stack))", goal_cases)
  case 1
  show ?case by (intro wf_inv_image wf_lex_prod wf_less_than)
next
  case (2 rows cols m key stack visited)
  have "card ((gridSet rows cols \<union> set stack) - set visited)
      \<le> card ((gridSet rows cols \<union> set (key # stack)) - set visited)"
    by (intro card_mono) (auto simp: gridSet_def)
  then show ?case by auto
next
  case (3 rows cols m key stack visited)
  have "(gridSet rows cols \<union> set (rev (openNeighbors rows cols m key) @ stack)) - set (key # visited)
      \<subset> (gridSet rows cols \<union> set (key # stack)) - set visited"
    using 3 openNeighbors_grid [of rows cols m key] by auto
  then have "card ((gridSet rows cols \<union> set (rev (openNeighbors rows cols m key) @ stack)) - set (key # visited))
      < card ((gridSet rows cols \<union> set (key # stack)) - set visited)"
    by (intro psubset_card_mono) (auto simp: gridSet_def)
  then show ?case by simp
qed

definition isConnectedGraph :: "int \<Rightarrow> int \<Rightarrow> edgeMap \<Rightarrow> bool" where
  "isConnectedGraph rows cols m = (int (length (reach rows cols m ([(0, 0)], []))) = rows * cols)"

definition canRemoveEdge :: "int \<Rightarrow> int \<Rightarrow> edgeMap \<Rightarrow> int \<Rightarrow> int \<Rightarrow> nat \<Rightarrow> bool \<times> edgeMap" where
  "canRemoveEdge rows cols m r c dir =
     (let (nr, nc) = neighborOf r c dir
      in if nr < 0 \<or> nc < 0 \<or> nr \<ge> rows \<or> nc \<ge> cols then (False, m)
         else if \<not> flag (edgesAt m (r, c)) dir then (False, m)
         else (let m1 = setLink m (r, c) (nr, nc) dir False
               in if \<not> isConnectedGraph rows cols m1
                  then (False, setLink m1 (r, c) (nr, nc) dir True)
                  else (True, m1)))"

fun removeFirst :: "int \<Rightarrow> int \<Rightarrow> edgeMap \<Rightarrow> int \<Rightarrow> int \<Rightarrow> nat list \<Rightarrow> bool \<times> edgeMap" where
  "removeFirst rows cols m r c [] = (False, m)"
| "removeFirst rows cols m r c (dir # dirs) =
     (let (ok, m1) = canRemoveEdge rows cols m r c dir
      in if ok then (True, m1) else removeFirst rows cols m1 r c dirs)"

function reduceCrosses :: "int \<Rightarrow> int \<Rightarrow> nat \<Rightarrow> cell list \<times> edgeMap \<times> nat \<times> rng \<Rightarrow> edgeMap \<times> rng" where
  "reduceCrosses rows cols i (crossCells, m, crosses, g) =
     (if i < length crossCells \<and> crosses > maxCrosses then
        (let (u, g1) = randomNext g;
             swapIndex = i + randIndex u (length crossCells - i);
             cells1 = swapAt i swapIndex crossCells;
             (r, c) = cells1 ! i;
             (removed, m1) = removeFirst rows cols m r c [0, 1, 2, 3]
         in reduceCrosses rows cols (i + 1)
              (cells1, m1, if removed then countCrosses rows cols m1 else crosses, g1))
      else (m, g))"
  by pat_completeness auto
termination
  by (relation "measure (\<lambda>(rows, cols, i, cells, m, n, g). length cells - i)")
     (auto simp: swapAt_def)

function reduceTJunctions :: "int \<Rightarrow> int \<Rightarrow> nat \<Rightarrow> cell list \<times> edgeMap \<times> nat \<times> rng \<Rightarrow> edgeMap \<times> rng" where
  "reduceTJunctions rows cols i (tCells, m, tCount, g) =
     (if i < length tCells \<and> tCount > maxTJunctions rows cols then
        (let (u, g1) = randomNext g;
             swapIndex = i + randIndex u (length tCells - i);
             cells1 = swapAt i swapIndex tCells;
             (r, c) = cells1 ! i;
             dirs = filter (\<lambda>dir. flag (edgesAt m (r, c)) dir) [0, 1, 2, 3];
             (removed, m1) = removeFirst rows cols m r c dirs
         in reduceTJunctions rows cols (i + 1)
              (cells1, m1, if removed then countTJunctions rows cols m1 else tCount, g1))
      else (m, g))"
  by pat_completeness auto
termination
  by (relation "measure (\<lambda>(rows, cols, i, cells, m, n, g). length cells - i)")
     (auto simp: swapAt_def)

definition enforceCrossCap :: "int \<Rightarrow> int \<Rightarrow> edgeMap \<times> rng \<Rightarrow> edgeMap \<times> rng" where
  "enforceCrossCap rows cols = (\<lambda>(m, g).
     if countCrosses rows cols m > maxCrosses
     then reduceCrosses rows cols 0 (cellsOfDegree rows cols m 4, m, countCrosses rows cols m, g)
     else (m, g))"

definition enforceTJunctionCap :: "int \<Rightarrow> int \<Rightarrow> edgeMap \<times> rng \<Rightarrow> edgeMap \<times> rng" where
  "enforceTJunctionCap rows cols = (\<lambda>(m, g).
     if countTJunctions rows cols m > maxTJunctions rows cols
     then reduceTJunctions rows cols 0
            (cellsOfDegree rows cols m 3, m, countTJunctions rows cols m, g)
     else (m, g))"

definition generateSolvedEdges :: "int \<Rightarrow> int \<Rightarrow> rng \<Rightarrow> edgeMap \<times> rng" where
  "generateSolvedEdges rows cols g =
     (let (m1, g1) = carveStart rows cols g;
          (m2, g2) = extraEdges rows cols 0 (candidates rows cols, m1, 0, g1);
          (targets, g3) = shuffle 0 (promotionTargets rows cols m2, g2);
          m3 = promoteAll rows cols m2 targets;
          (m4, g4) = softSymmetry rows cols (m3, g3);
          (m5, g5) = defensivePass rows cols (m4, g4)
      in enforceTJunctionCap rows cols (enforceCrossCap rows cols (m5, g5)))"

definition degreesOf :: "int \<Rightarrow> int \<Rightarrow> edgeMap \<Rightarrow> nat list list" where
  "degreesOf rows cols m = map (\<lambda>r. map (\<lambda>c. degree (edgesAt m (r, c))) [0..cols - 1]) [0..rows - 1]"

section \<open>Double-precision arithmetic\<close>

text \<open>
  The few floating-point products and quotients that reach a comparison or \<open>Math.round\<close> are
  computed exactly: \<open>fl q\<close> is the double nearest to the positive rational \<open>q\<close> (ties to the even
  significand); every double is a rational. Overflow and subnormal numbers do not arise for
  the magnitudes used here (between \<open>1/100\<close> and \<open>60\<close>).
\<close>

function bitLength :: "int \<Rightarrow> int" where
  "bitLength a = (if a \<le> 0 then 0 else 1 + bitLength (a div 2))"
  by pat_completeness auto
termination
  by (relation "measure nat") auto

definition pow2 :: "int \<Rightarrow> rat" where
  "pow2 i = (if i \<ge> 0 then 2 ^ nat i else 1 / 2 ^ nat (- i))"

definition fl :: "rat \<Rightarrow> rat" where
  "fl q =
     (if q \<le> 0 then q
      else (let (a, b) = quotient_of q;
                k = bitLength a - bitLength b;
                e = (if pow2 k \<le> q then k else k - 1);
                scaled = q * pow2 (52 - e);
                f = \<lfloor>scaled\<rfloor>;
                d = scaled - of_int f;
                mant = (if d < 1 / 2 then f else if d > 1 / 2 then f + 1
                        else if even f then f else f + 1)
            in of_int mant / pow2 (52 - e)))"

section \<open>Carving the blank regions\<close>

type_synonym cellGroup = "int \<times> int \<times> cell list"

definition getSymmetricCells :: "int \<Rightarrow> int \<Rightarrow> int \<Rightarrow> int \<Rightarrow> cell list" where
  "getSymmetricCells r c rows cols =
     fold setAdd [(r, c), (rows - 1 - r, c), (r, cols - 1 - c), (rows - 1 - r, cols - 1 - c)] []"

definition symmetricGroups :: "int \<Rightarrow> int \<Rightarrow> cellGroup list" where
  "symmetricGroups rows cols =
     filter (\<lambda>(r, c, cells). length cells = 4)
       (map (\<lambda>(r, c). (r, c, getSymmetricCells r c rows cols))
          (gridCells ((rows + 1) div 2) ((cols + 1) div 2)))"

definition groupIndexAt :: "cellGroup list \<Rightarrow> int \<Rightarrow> int \<Rightarrow> nat option" where
  "groupIndexAt groups nr nc =
     find (\<lambda>i. fst (groups ! i) = nr \<and> fst (snd (groups ! i)) = nc) [0..<length groups]"

definition neighborIndices :: "int \<Rightarrow> int \<Rightarrow> cellGroup list \<Rightarrow> cellGroup \<Rightarrow> nat list" where
  "neighborIndices rows cols groups grp =
     concat (map (\<lambda>(dr, dc).
                (let nr = fst grp + dr; nc = fst (snd grp) + dc
                 in if nr \<ge> 0 \<and> nr < (rows + 1) div 2 \<and> nc \<ge> 0 \<and> nc < (cols + 1) div 2
                    then (case groupIndexAt groups nr nc of None \<Rightarrow> [] | Some idx \<Rightarrow> [idx])
                    else []))
             [(1, 0), (- 1, 0), (0, 1), (0, - 1)])"

definition groupTargetOf :: "cellGroup list \<Rightarrow> int \<Rightarrow> nat" where
  "groupTargetOf groups targetCells =
     min (length groups - 1) (nat (max 1 ((targetCells + 2) div 4)))"

definition unchosen :: "cellGroup list \<Rightarrow> nat list \<Rightarrow> nat list" where
  "unchosen groups chosen = filter (\<lambda>idx. idx \<notin> set chosen) [0..<length groups]"

text \<open>
  \<open>pickWeightedIndex\<close>. The weighted branch subtracts floating-point weights computed with
  \<open>Math.pow\<close> from a roll and returns the entry of \<open>available\<close> at which the roll is used up,
  or the last entry; its position \<open>wroll biasStrength v available\<close> is a parameter of the
  model, \<open>v\<close> being the random number of the roll.
\<close>

definition pickWeightedIndex :: "(rat \<Rightarrow> int \<Rightarrow> nat list \<Rightarrow> nat) \<Rightarrow> rat \<Rightarrow> nat list \<Rightarrow> rng \<Rightarrow>
    nat option \<times> rng" where
  "pickWeightedIndex wroll biasStrength available g =
     (if available = [] then (None, g)
      else if biasStrength \<le> 0 then
        (let (v, g1) = randomNext g
         in (Some (available ! randIndex v (length available)), g1))
      else (let (u, g1) = randomNext g; (v, g2) = randomNext g1
            in if of_int u / 4294967296 > biasStrength
               then (Some (available ! randIndex v (length available)), g2)
               else (Some (available ! min (wroll biasStrength v available) (length available - 1)), g2)))"

fun seedClusters :: "(rat \<Rightarrow> int \<Rightarrow> nat list \<Rightarrow> nat) \<Rightarrow> rat \<Rightarrow> cellGroup list \<Rightarrow> nat \<Rightarrow>
    nat list \<times> nat list list \<times> rng \<Rightarrow> nat list \<times> nat list list \<times> rng" where
  "seedClusters wroll bias groups 0 s = s"
| "seedClusters wroll bias groups (Suc n) (chosen, clusters, g) =
     (case pickWeightedIndex wroll bias (unchosen groups chosen) g of
        (Some seedIndex, g1) \<Rightarrow>
          seedClusters wroll bias groups n (setAdd seedIndex chosen, clusters @ [[seedIndex]], g1)
      | (None, g1) \<Rightarrow> seedClusters wroll bias groups n (chosen, clusters, g1))"

lemma pickWeightedIndex_mem:
  assumes "pickWeightedIndex wroll bias available g = (Some idx, g')"
  shows "idx \<in> set available"
proof -
  have ne: "available \<noteq> []"
    using assms by (auto simp: pickWeightedIndex_def)
  obtain u g1 where 1: "randomNext g = (u, g1)" by (cases "randomNext g")
  obtain v g2 where 2: "randomNext g1 = (v, g2)" by (cases "randomNext g1")
  have "min (wroll bias v available) (length available - 1) < length available"
    using ne by (cases available) auto
  then have "available ! min (wroll bias v available) (length available - 1) \<in> set available"
    by simp
  then show ?thesis
    using assms ne 1 2 randomNext_index [OF 1 ne] randomNext_index [OF 2 ne]
    by (auto simp: pickWeightedIndex_def split: if_splits)
qed

text \<open>
  The \<open>while (chosen.size < groupTarget)\<close> loop. Reading \<open>clusters[clusterIndex]\<close> from an empty
  array, an entry of an empty cluster, or a group past the end of \<open>groups\<close> gives \<open>undefined\<close>,
  and the property access that follows throws a \<open>TypeError\<close>: the result \<open>None\<close>.
\<close>

function growClusters :: "(rat \<Rightarrow> int \<Rightarrow> nat list \<Rightarrow> nat) \<Rightarrow> rat \<Rightarrow> int \<Rightarrow> int \<Rightarrow> cellGroup list \<Rightarrow> nat \<Rightarrow>
    nat list \<times> nat list list \<times> rng \<Rightarrow> (nat list \<times> rng) option" where
  "growClusters wroll bias rows cols groups groupTarget (chosen, clusters, g) =
     (if length chosen < groupTarget then
        (let (u, g1) = randomNext g;
             clusterIndex = randIndex u (length clusters)
         in if clusters = [] then None
            else (let cluster = clusters ! clusterIndex;
                      (v, g2) = randomNext g1
                  in if cluster = [] then None
                     else (let anchorIndex = cluster ! randIndex v (length cluster)
                           in if anchorIndex \<ge> length groups then None
                              else (let neighbors =
                                          filter (\<lambda>idx. idx \<notin> set chosen)
                                            (neighborIndices rows cols groups (groups ! anchorIndex))
                                    in if neighbors \<noteq> [] then
                                         (let (w, g3) = randomNext g2;
                                              nextIndex = neighbors ! randIndex w (length neighbors)
                                          in growClusters wroll bias rows cols groups groupTarget
                                               (setAdd nextIndex chosen,
                                                clusters[clusterIndex := cluster @ [nextIndex]], g3))
                                       else (case pickWeightedIndex wroll bias (unchosen groups chosen) g2 of
                                               (Some nextIndex, g3) \<Rightarrow>
                                                 growClusters wroll bias rows cols groups groupTarget
                                                   (setAdd nextIndex chosen,
                                                    clusters[clusterIndex := cluster @ [nextIndex]], g3)
                                             | (None, g3) \<Rightarrow> Some (chosen, g3))))))
      else Some (chosen, g))"
  by pat_completeness auto
termination
proof (relation "measure (\<lambda>(wroll, bias, rows, cols, groups, groupTarget, chosen, clusters, g).
    groupTarget - length chosen)", goal_cases)
  case 1
  show ?case by simp
next
  case (2 wroll bias rows cols groups groupTarget chosen clusters g x u g1 clusterIndex cluster
      xa v g2 anchorIndex neighbors xb w g3 nextIndex)
  then have "randomNext g2 = (w, g3)" and "neighbors \<noteq> []"
    by simp_all
  then have "neighbors ! randIndex w (length neighbors) \<in> set neighbors"
    by (rule randomNext_index)
  then have "nextIndex \<notin> set chosen"
    using 2 by auto
  then show ?case
    using 2 by (simp add: setAdd_def)
next
  case (3 wroll bias rows cols groups groupTarget chosen clusters g x u g1 clusterIndex cluster
      xa v g2 anchorIndex neighbors xb g3 nextIndex)
  then have "pickWeightedIndex wroll bias (unchosen groups chosen) g2 = (Some nextIndex, g3)"
    by simp
  then have "nextIndex \<in> set (unchosen groups chosen)"
    by (rule pickWeightedIndex_mem)
  then have "nextIndex \<notin> set chosen"
    by (simp add: unchosen_def)
  then show ?case
    using 3 by (simp add: setAdd_def)
qed

definition selectGroupsInClusters :: "(rat \<Rightarrow> int \<Rightarrow> nat list \<Rightarrow> nat) \<Rightarrow> rat \<Rightarrow> int \<Rightarrow> int \<Rightarrow>
    cellGroup list \<Rightarrow> nat \<Rightarrow> int \<Rightarrow> int \<Rightarrow> rng \<Rightarrow> (nat list \<times> rng) option" where
  "selectGroupsInClusters wroll bias rows cols groups groupTarget minClusterCells clusterCountValue g =
     (let minGroups = max 1 ((minClusterCells + 3) div 4);
          clusterTotal = max 1 (if clusterCountValue = 0 then 1 else clusterCountValue);
          maxClusterTotal = max 1 (int groupTarget div minGroups);
          finalClusterTotal = min clusterTotal maxClusterTotal
      in growClusters wroll bias rows cols groups groupTarget
           (seedClusters wroll bias groups (nat finalClusterTotal) ([], [], g)))"

definition cellsOfGroups :: "cellGroup list \<Rightarrow> nat list \<Rightarrow> cell list" where
  "cellsOfGroups groups idxs = fold (\<lambda>idx blanks. fold setAdd (snd (snd (groups ! idx))) blanks) idxs []"

fun firstGroupsCells :: "cellGroup list \<Rightarrow> nat \<Rightarrow> nat list \<Rightarrow> cell list \<Rightarrow> cell list" where
  "firstGroupsCells groups groupTarget [] blanks = blanks"
| "firstGroupsCells groups groupTarget (idx # idxs) blanks =
     (if length blanks \<ge> groupTarget * 4 then blanks
      else firstGroupsCells groups groupTarget idxs (fold setAdd (snd (snd (groups ! idx))) blanks))"

definition centerDistance :: "int \<Rightarrow> int \<Rightarrow> cellGroup \<Rightarrow> int" where
  "centerDistance rows cols grp =
     \<bar>2 * fst grp - (rows - 1)\<bar> + \<bar>2 * fst (snd grp) - (cols - 1)\<bar>"

definition swapTowardCenter :: "rat \<Rightarrow> int \<Rightarrow> int \<Rightarrow> cellGroup list \<Rightarrow> nat list \<Rightarrow> nat list option" where
  "swapTowardCenter bias rows cols groups blankGroups =
     (let totalGroups = length groups;
          keepGroups = filter (\<lambda>i. i \<notin> set blankGroups) [0..<totalGroups];
          keepCount = length keepGroups
      in if keepCount > 0 then
           (let sortedByCenter = sort_key (\<lambda>i. centerDistance rows cols (groups ! i)) [0..<totalGroups];
                desiredCount = nat (max 1 (mathRound (fl (of_nat keepCount * bias))));
                desiredSet = take desiredCount sortedByCenter;
                missing = filter (\<lambda>idx. idx \<in> set blankGroups) desiredSet
            in if missing \<noteq> [] then
                 (let removable = sort_key (\<lambda>i. - centerDistance rows cols (groups ! i))
                                    (filter (\<lambda>idx. idx \<notin> set desiredSet) keepGroups);
                      swapCount = min (length missing) (length removable)
                  in if swapCount > 0 then
                       Some (fold (\<lambda>i bg. setAdd (removable ! i) (removeAll (missing ! i) bg))
                               [0..<swapCount] blankGroups)
                     else None)
               else None)
         else None)"

definition candidatesOfBlank :: "cell list \<Rightarrow> cell \<Rightarrow> cell list" where
  "candidatesOfBlank blanks k =
     filter (\<lambda>n. n \<notin> set blanks) [(fst k + 1, snd k), (fst k - 1, snd k), (fst k, snd k + 1), (fst k, snd k - 1)]"

definition visitNew :: "int \<Rightarrow> int \<Rightarrow> cell \<Rightarrow> cell list \<times> cell list \<Rightarrow> cell list \<times> cell list" where
  "visitNew rows cols n = (\<lambda>(queue, visited).
     if \<not> inGrid rows cols n \<or> n \<in> set visited then (queue, visited)
     else (queue @ [n], n # visited))"

lemma visitNew_cases:
  "visitNew rows cols n (queue, visited) = (queue, visited) \<or>
   (visitNew rows cols n (queue, visited) = (queue @ [n], n # visited) \<and>
    n \<in> gridSet rows cols \<and> n \<notin> set visited)"
  by (cases n) (auto simp: visitNew_def inGrid_def gridSet_def)

lemma fold_visitNew:
  "fold (visitNew rows cols) ns (queue, visited) = (queue', visited') \<Longrightarrow>
   card (gridSet rows cols - set visited') + length queue'
     \<le> card (gridSet rows cols - set visited) + length queue"
proof (induction ns arbitrary: queue visited)
  case Nil
  then show ?case by simp
next
  case (Cons n ns)
  have fin: "finite (gridSet rows cols - set visited)"
    by (simp add: gridSet_def)
  from visitNew_cases [of rows cols n queue visited] show ?case
  proof
    assume "visitNew rows cols n (queue, visited) = (queue, visited)"
    with Cons show ?thesis by simp
  next
    assume a: "visitNew rows cols n (queue, visited) = (queue @ [n], n # visited) \<and>
      n \<in> gridSet rows cols \<and> n \<notin> set visited"
    then have "n \<in> gridSet rows cols - set visited" by simp
    then have "card (gridSet rows cols - set (n # visited)) < card (gridSet rows cols - set visited)"
      using fin by (intro psubset_card_mono) auto
    moreover have "card (gridSet rows cols - set visited') + length queue'
        \<le> card (gridSet rows cols - set (n # visited)) + length (queue @ [n])"
      using Cons.IH [of "queue @ [n]" "n # visited"] Cons.prems a by simp
    ultimately show ?thesis by simp
  qed
qed

text \<open>
  The breadth-first floods of \<open>isConnected\<close>, \<open>isEdgeGraphConnected\<close> and \<open>maxTerminalCluster\<close>:
  the queue is served from its front, and a neighbour is marked visited when it is queued.
  \<open>cands\<close> lists the neighbours of a cell that pass the flood's own test, in its order.
\<close>

function flood :: "int \<Rightarrow> int \<Rightarrow> (cell \<Rightarrow> cell list) \<Rightarrow> cell list \<times> cell list \<Rightarrow> cell list" where
  "flood rows cols cands ([], visited) = visited"
| "flood rows cols cands (k # queue, visited) =
     flood rows cols cands (fold (visitNew rows cols) (cands k) (queue, visited))"
  by pat_completeness auto
termination
proof (relation "measure (\<lambda>(rows, cols, cands, queue, visited).
    card (gridSet rows cols - set visited) + length queue)", goal_cases)
  case 1
  show ?case by simp
next
  case (2 rows cols cands k queue visited)
  obtain q v where f: "fold (visitNew rows cols) (cands k) (queue, visited) = (q, v)"
    by (cases "fold (visitNew rows cols) (cands k) (queue, visited)")
  from fold_visitNew [OF f] show ?case
    by (simp add: f)
qed

definition firstNonBlank :: "int \<Rightarrow> int \<Rightarrow> cell list \<Rightarrow> cell option" where
  "firstNonBlank rows cols blanks = find (\<lambda>k. k \<notin> set blanks) (gridCells rows cols)"

definition isConnected :: "int \<Rightarrow> int \<Rightarrow> cell list \<Rightarrow> bool" where
  "isConnected rows cols blanks =
     (let total = rows * cols - int (length blanks)
      in if total \<le> 0 then True
         else (case firstNonBlank rows cols blanks of
                 None \<Rightarrow> True
               | Some start \<Rightarrow>
                   int (length (flood rows cols (candidatesOfBlank blanks) ([start], [start]))) = total))"

definition lineIsBlank :: "cell list \<Rightarrow> cell list \<Rightarrow> bool" where
  "lineIsBlank blanks line = list_all (\<lambda>k. k \<in> set blanks) line"

definition longestRun :: "bool list \<Rightarrow> nat" where
  "longestRun flags =
     fst (fold (\<lambda>b (maxRun, run). if b then (max maxRun (run + 1), run + 1) else (maxRun, 0))
            flags (0, 0))"

definition maxEmptyRowRunOf :: "int \<Rightarrow> int \<Rightarrow> cell list \<Rightarrow> nat" where
  "maxEmptyRowRunOf rows cols blanks =
     longestRun (map (\<lambda>r. lineIsBlank blanks (map (\<lambda>c. (r, c)) [0..cols - 1])) [0..rows - 1])"

definition maxEmptyColRunOf :: "int \<Rightarrow> int \<Rightarrow> cell list \<Rightarrow> nat" where
  "maxEmptyColRunOf rows cols blanks =
     longestRun (map (\<lambda>c. lineIsBlank blanks (map (\<lambda>r. (r, c)) [0..rows - 1])) [0..cols - 1])"

record blankParams =
  targetCells :: int
  clusterCount :: int
  minClusterCells :: int
  maxEmptyRowRun :: int
  maxEmptyColRun :: int
  centerBiasOf :: rat

definition biasStrengthOf :: "blankParams \<Rightarrow> rat" where
  "biasStrengthOf p = min 1 (max 0 (centerBiasOf p))"

function chooseBlanks :: "(rat \<Rightarrow> int \<Rightarrow> nat list \<Rightarrow> nat) \<Rightarrow> int \<Rightarrow> int \<Rightarrow> blankParams \<Rightarrow> nat \<Rightarrow>
    cell list \<Rightarrow> rng \<Rightarrow> (cell list \<times> rng) option" where
  "chooseBlanks wroll rows cols p attempts blanks0 g =
     (if attempts < 40 then
        (let groups = symmetricGroups rows cols;
             groupTarget = groupTargetOf groups (targetCells p);
             bias = biasStrengthOf p
         in case selectGroupsInClusters wroll bias rows cols groups groupTarget
                   (minClusterCells p) (clusterCount p) g of
              None \<Rightarrow> None
            | Some (grouped, g1) \<Rightarrow>
                (let blanks1 = firstGroupsCells groups groupTarget grouped [];
                     blanks =
                       (if bias \<ge> fl (4 / 10) \<and> length grouped > 0 \<and> length grouped < length groups
                        then (case swapTowardCenter bias rows cols groups grouped of
                                None \<Rightarrow> blanks1
                              | Some blankGroups \<Rightarrow> cellsOfGroups groups blankGroups)
                        else blanks1)
                 in if int (length blanks) = int groupTarget * 4
                       \<and> isConnected rows cols blanks
                       \<and> int (maxEmptyRowRunOf rows cols blanks) \<le> maxEmptyRowRun p
                       \<and> int (maxEmptyColRunOf rows cols blanks) \<le> maxEmptyColRun p
                    then Some (blanks, g1)
                    else chooseBlanks wroll rows cols p (attempts + 1) blanks g1))
      else Some (blanks0, g))"
  by pat_completeness auto
termination
  by (relation "measure (\<lambda>(wroll, rows, cols, p, attempts, blanks0, g). 40 - attempts)") auto

definition severCell :: "cell \<Rightarrow> edgeMap \<Rightarrow> edgeMap" where
  "severCell key m =
     AList.update key noEdges
       (fold (\<lambda>dir m1. if flag (edgesAt m1 key) dir
                        then setLink m1 key (neighborOf (fst key) (snd key) dir) dir False
                        else m1)
          [0, 1, 2, 3] m)"

definition applySymmetricBlanks :: "(rat \<Rightarrow> int \<Rightarrow> nat list \<Rightarrow> nat) \<Rightarrow> int \<Rightarrow> int \<Rightarrow> blankParams \<Rightarrow>
    edgeMap \<times> rng \<Rightarrow> (edgeMap \<times> rng) option" where
  "applySymmetricBlanks wroll rows cols p = (\<lambda>(m, g).
     if targetCells p \<le> 0 then Some (m, g)
     else (case chooseBlanks wroll rows cols p 0 [] g of
             None \<Rightarrow> None
           | Some (blanks, g1) \<Rightarrow> Some (fold severCell blanks m, g1)))"

section \<open>Validating a layout\<close>

definition countTerminals :: "edgeMap \<Rightarrow> int \<Rightarrow> int \<Rightarrow> nat" where
  "countTerminals m rows cols = length (cellsOfDegree rows cols m 1)"

definition isCurve :: "bool list \<Rightarrow> bool" where
  "isCurve e = (degree e = 2 \<and> \<not> ((flag e 0 \<and> flag e 2) \<or> (flag e 1 \<and> flag e 3)))"

definition countCurves :: "edgeMap \<Rightarrow> int \<Rightarrow> int \<Rightarrow> nat \<times> nat" where
  "countCurves m rows cols =
     (length (filter (\<lambda>k. isCurve (edgesAt m k)) (gridCells rows cols)),
      length (filter (\<lambda>k. degree (edgesAt m k) \<noteq> 0) (gridCells rows cols)))"

definition openCandidates :: "edgeMap \<Rightarrow> cell \<Rightarrow> cell list" where
  "openCandidates m k =
     filter (\<lambda>n. degree (edgesAt m n) \<noteq> 0)
       (map (\<lambda>dir. neighborOf (fst k) (snd k) dir)
          (filter (\<lambda>dir. flag (edgesAt m k) dir) [0, 1, 2, 3]))"

definition isEdgeGraphConnected :: "edgeMap \<Rightarrow> int \<Rightarrow> int \<Rightarrow> bool" where
  "isEdgeGraphConnected m rows cols =
     (let nonBlank = filter (\<lambda>k. degree (edgesAt m k) > 0) (gridCells rows cols)
      in if length nonBlank \<le> 1 then True
         else length (flood rows cols (openCandidates m) ([hd nonBlank], [hd nonBlank]))
                = length nonBlank)"

fun closePair :: "int \<Rightarrow> cell \<Rightarrow> cell \<Rightarrow> bool" where
  "closePair minDistance (r1, c1) (r2, c2) = (\<bar>r1 - r2\<bar> + \<bar>c1 - c2\<bar> < minDistance)"

fun anyClose :: "int \<Rightarrow> cell list \<Rightarrow> bool" where
  "anyClose minDistance [] = False"
| "anyClose minDistance (t # ts) =
     (list_ex (closePair minDistance t) ts \<or> anyClose minDistance ts)"

definition hasCloseTerminals :: "edgeMap \<Rightarrow> int \<Rightarrow> int \<Rightarrow> int \<Rightarrow> bool" where
  "hasCloseTerminals m rows cols minDistance = anyClose minDistance (cellsOfDegree rows cols m 1)"

definition terminalCandidates :: "edgeMap \<Rightarrow> cell \<Rightarrow> cell list" where
  "terminalCandidates m k =
     filter (\<lambda>n. degree (edgesAt m n) = 1)
       [(fst k + 1, snd k), (fst k - 1, snd k), (fst k, snd k + 1), (fst k, snd k - 1)]"

definition clusterStep :: "edgeMap \<Rightarrow> int \<Rightarrow> int \<Rightarrow> cell \<Rightarrow> cell list \<times> nat \<Rightarrow> cell list \<times> nat" where
  "clusterStep m rows cols k = (\<lambda>(visited, maxSize).
     if k \<in> set visited \<or> degree (edgesAt m k) \<noteq> 1 then (visited, maxSize)
     else (let visited1 = flood rows cols (terminalCandidates m) ([k], k # visited);
               size = length visited1 - length visited
           in (visited1, if size > maxSize then size else maxSize)))"

definition maxTerminalCluster :: "edgeMap \<Rightarrow> int \<Rightarrow> int \<Rightarrow> nat" where
  "maxTerminalCluster m rows cols = snd (fold (clusterStep m rows cols) (gridCells rows cols) ([], 0))"

definition isVertical :: "bool list \<Rightarrow> bool" where
  "isVertical e = (flag e 0 \<and> flag e 2 \<and> \<not> flag e 1 \<and> \<not> flag e 3)"

definition isHorizontal :: "bool list \<Rightarrow> bool" where
  "isHorizontal e = (flag e 1 \<and> flag e 3 \<and> \<not> flag e 0 \<and> \<not> flag e 2)"

definition maxStraightRun :: "edgeMap \<Rightarrow> int \<Rightarrow> int \<Rightarrow> nat" where
  "maxStraightRun m rows cols =
     fold max
       (map (\<lambda>c. longestRun (map (\<lambda>r. isVertical (edgesAt m (r, c))) [0..rows - 1])) [0..cols - 1] @
        map (\<lambda>r. longestRun (map (\<lambda>c. isHorizontal (edgesAt m (r, c))) [0..cols - 1])) [0..rows - 1])
       0"

section \<open>Materializing the tiles\<close>

definition edgesEqual :: "bool list \<Rightarrow> bool list \<Rightarrow> bool" where
  "edgesEqual a b = (flag a 0 = flag b 0 \<and> flag a 1 = flag b 1 \<and> flag a 2 = flag b 2 \<and> flag a 3 = flag b 3)"

definition typeCandidates :: "bool list \<Rightarrow> tile_type list" where
  "typeCandidates edges =
     (let d = degree edges
      in if d = 0 then [Blank]
         else if d = 1 then [Terminal]
         else if d = 2 then
           (if (flag edges 0 \<and> flag edges 2) \<or> (flag edges 1 \<and> flag edges 3) then [Straight]
            else [CurveLeft, CurveRight])
         else if d = 3 then [TJunction]
         else if d = 4 then [CrossCurve]
         else [])"

definition pickTypeForEdges :: "bool list \<Rightarrow> tile_type \<times> nat" where
  "pickTypeForEdges edges =
     (case find (\<lambda>(ty, rot). edgesEqual (if ty = CrossCurve then BASE_EDGES ty
                                          else rotateEdges (BASE_EDGES ty) rot) edges)
             (concat (map (\<lambda>ty. map (\<lambda>rot. (ty, rot)) [0, 1, 2, 3]) (typeCandidates edges))) of
        Some p \<Rightarrow> p
      | None \<Rightarrow> (Blank, 0))"

definition tileAt :: "edgeMap \<Rightarrow> cell \<Rightarrow> tile" where
  "tileAt m k =
     (let (ty, rot) = pickTypeForEdges (edgesAt m k)
      in \<lparr>tid = k, tr = fst k, tc = snd k, ttype = ty, rotation = rot,
          rotationDegrees = int rot * 90, targetRotation = rot\<rparr>)"

section \<open>The board configuration\<close>

text \<open>
  The difficulty argument selects an entry of two object literals by name. \<open>Easy\<close>, \<open>Medium\<close>
  and \<open>Hard\<close> are their own keys. \<open>Inherited\<close> stands for a name that both literals inherit
  from \<open>Object.prototype\<close>, such as \<open>constructor\<close>: the value found is an object without any of
  the fields read from it, so that \<open>blankMin\<close> and \<open>blankMax\<close> are not numbers, the test
  \<open>blankMax > 0\<close> fails, and the curve ratio is not a number either (\<open>None\<close>).
  \<open>OtherDifficulty\<close> is any other value, for which the entries of \<open>medium\<close> are used.
\<close>

datatype difficulty = Easy | Medium | Hard | Inherited | OtherDifficulty

record boardConfig =
  blanksMin :: int
  blanksMax :: int
  blankClusters :: int
  blankMinClusterCells :: int
  blankMaxEmptyRowRun :: int
  blankMaxEmptyColRun :: int
  blankCenterBias :: rat
  curveRatio :: "rat option"
  minTerminals :: int
  maxTerminals :: int
  maxStraightRunAllowed :: int
  minTerminalDistance :: int
  maxTerminalClusterAllowed :: int

definition ROWS :: int where "ROWS = 10"
definition COLS :: int where "COLS = 6"
definition MIN_TILES :: int where "MIN_TILES = 4"

definition roundDiv :: "int \<Rightarrow> int \<Rightarrow> int" where
  "roundDiv a b = mathRound (fl (of_int a / of_int b))"

definition progressionSettingsToBoardConfig :: "int progression \<Rightarrow> boardConfig" where
  "progressionSettingsToBoardConfig n =
     (let totalCells = ROWS * COLS;
          gapCellsRaw = roundDiv (totalCells * gapRate n) 100;
          maxBlankCells = max 0 (totalCells - MIN_TILES);
          maxBlankCellsSnapped = (maxBlankCells div 4) * 4;
          gapCells = min maxBlankCellsSnapped (max 0 (roundDiv gapCellsRaw 4 * 4));
          clusters = (if gapCells = 0 then 0 else gapClusters n);
          minCluster = (if clusters = 0 then 0 else 4 + clusters * 2);
          minT = max 4 (roundDiv (totalCells * terminalRate n) 100);
          maxT = min totalCells (minT + 6)
      in \<lparr>blanksMin = gapCells, blanksMax = gapCells, blankClusters = clusters,
          blankMinClusterCells = minCluster, blankMaxEmptyRowRun = emptyRowMax n,
          blankMaxEmptyColRun = emptyColMax n,
          blankCenterBias = fl (of_int (centerBias n) / 100),
          curveRatio = Some (fl (of_int (curveBias n) / 100)),
          minTerminals = minT, maxTerminals = maxT,
          maxStraightRunAllowed = straightRunMax n,
          minTerminalDistance = terminalSpacing n,
          maxTerminalClusterAllowed = 3\<rparr>)"

definition difficultyConfig :: "difficulty \<Rightarrow> boardConfig" where
  "difficultyConfig d =
     (let minTerminalsDefault = max 6 \<lfloor>fl (of_int (ROWS * COLS) * fl (12 / 100))\<rfloor>;
          maxTerminalsDefault = max (minTerminalsDefault + 2) \<lfloor>fl (of_int (ROWS * COLS) * fl (22 / 100))\<rfloor>;
          base = \<lparr>blanksMin = 4, blanksMax = 12, blankClusters = 2, blankMinClusterCells = 6,
                  blankMaxEmptyRowRun = 2, blankMaxEmptyColRun = 2, blankCenterBias = 0,
                  curveRatio = Some (fl (28 / 100)),
                  minTerminals = minTerminalsDefault, maxTerminals = maxTerminalsDefault,
                  maxStraightRunAllowed = 4, minTerminalDistance = 2,
                  maxTerminalClusterAllowed = 3\<rparr>
      in case d of
           Easy \<Rightarrow> base\<lparr>blanksMin := 13, blanksMax := 20, blankClusters := 3,
                        curveRatio := Some (fl (32 / 100))\<rparr>
         | Medium \<Rightarrow> base
         | Hard \<Rightarrow> base\<lparr>blanksMin := 0, blanksMax := 0, blankClusters := 0,
                        blankMinClusterCells := 0, blankMaxEmptyRowRun := 0,
                        blankMaxEmptyColRun := 0, curveRatio := Some (fl (24 / 100))\<rparr>
         | Inherited \<Rightarrow> base\<lparr>blanksMin := 0, blanksMax := 0, blankClusters := 0,
                        blankMinClusterCells := 0, blankMaxEmptyRowRun := 0,
                        blankMaxEmptyColRun := 0, curveRatio := None\<rparr>
         | OtherDifficulty \<Rightarrow> base)"

definition boardConfigOf :: "js_string \<Rightarrow> difficulty \<Rightarrow> boardConfig" where
  "boardConfigOf seedText d =
     (case parseProgressionSeed seedText of
        Some settings \<Rightarrow> progressionSettingsToBoardConfig settings
      | None \<Rightarrow> difficultyConfig d)"

definition blankParamsOf :: "boardConfig \<Rightarrow> int \<Rightarrow> blankParams" where
  "blankParamsOf cfg targetCount =
     \<lparr>targetCells = targetCount, clusterCount = blankClusters cfg,
      minClusterCells = blankMinClusterCells cfg, maxEmptyRowRun = blankMaxEmptyRowRun cfg,
      maxEmptyColRun = blankMaxEmptyColRun cfg, centerBiasOf = blankCenterBias cfg\<rparr>"

section \<open>Generating a board\<close>

definition carveAttempt :: "(rat \<Rightarrow> int \<Rightarrow> nat list \<Rightarrow> nat) \<Rightarrow> boardConfig \<Rightarrow> rng \<Rightarrow>
    (edgeMap \<times> rng) option" where
  "carveAttempt wroll cfg rand =
     (let blankMin = max 0 (blanksMin cfg);
          blankMax = max blankMin (blanksMax cfg);
          (m, g) = generateSolvedEdges ROWS COLS rand
      in if blankMax > 0 then
           (let (u, g1) = randomNext g;
                targetCount = blankMin + (u * (blankMax - blankMin + 1)) div 4294967296
            in applySymmetricBlanks wroll ROWS COLS (blankParamsOf cfg targetCount) (m, g1))
         else Some (m, g))"

definition layoutAccepted :: "boardConfig \<Rightarrow> edgeMap \<Rightarrow> bool" where
  "layoutAccepted cfg m =
     (let terminals = int (countTerminals m ROWS COLS);
          longest = int (maxStraightRun m ROWS COLS);
          tooClustered = hasCloseTerminals m ROWS COLS (minTerminalDistance cfg);
          terminalClusterSize = int (maxTerminalCluster m ROWS COLS);
          edgeConnected = isEdgeGraphConnected m ROWS COLS;
          (curves, nonBlank) = countCurves m ROWS COLS;
          minCurves = (if nonBlank = 0 then Some 0
                       else map_option (\<lambda>ratio. max 8 (mathRound (fl (of_nat nonBlank * ratio))))
                              (curveRatio cfg))
      in terminals \<ge> minTerminals cfg \<and> terminals \<le> maxTerminals cfg
         \<and> longest \<le> maxStraightRunAllowed cfg \<and> \<not> tooClustered
         \<and> terminalClusterSize \<le> maxTerminalClusterAllowed cfg
         \<and> edgeConnected
         \<and> (case minCurves of None \<Rightarrow> False | Some least \<Rightarrow> int curves \<ge> least))"

text \<open>
  The \<open>while (attemptSeed < 60)\<close> loop. \<open>edgesByCell\<close> starts as \<open>null\<close>; were the loop to end
  without a turn, reading from it would throw.
\<close>

function carveLoop :: "(rat \<Rightarrow> int \<Rightarrow> nat list \<Rightarrow> nat) \<Rightarrow> boardConfig \<Rightarrow> int \<Rightarrow> nat \<Rightarrow>
    (edgeMap \<times> rng) option \<Rightarrow> (edgeMap \<times> rng) option" where
  "carveLoop wroll cfg seed attemptSeed prev =
     (if attemptSeed < 60 then
        (case carveAttempt wroll cfg (mulberry32 (seed + int attemptSeed * 97)) of
           None \<Rightarrow> None
         | Some (m, g) \<Rightarrow>
             if layoutAccepted cfg m then Some (m, g)
             else carveLoop wroll cfg seed (attemptSeed + 1) (Some (m, g)))
      else prev)"
  by pat_completeness auto
termination
  by (relation "measure (\<lambda>(wroll, cfg, seed, attemptSeed, prev). 60 - attemptSeed)") auto

definition solvedTiles :: "edgeMap \<Rightarrow> tile list" where
  "solvedTiles m = map (tileAt m) (gridCells ROWS COLS)"

fun scrambleTiles :: "tile list \<Rightarrow> rng \<Rightarrow> tile list \<times> rng" where
  "scrambleTiles [] g = ([], g)"
| "scrambleTiles (t # ts) g =
     (let (u, g1) = randomNext g;
          offset = randIndex u 4;
          rotationScrambled = (targetRotation t + offset) mod 4;
          (rest, g2) = scrambleTiles ts g1
      in (t\<lparr>rotation := rotationScrambled, rotationDegrees := int rotationScrambled * 90\<rparr> # rest, g2))"

definition hasSolvedSide :: "tile list \<Rightarrow> bool" where
  "hasSolvedSide next =
     (let completeDirs = computeCompleteDirs next (computeConnections next)
      in list_ex (\<lambda>t. list_ex id (connectedFor completeDirs (tid t))) next)"

definition scrambleWithoutSolved :: "tile list \<Rightarrow> rng \<Rightarrow> (tile list \<times> bool) \<times> rng" where
  "scrambleWithoutSolved tiles g =
     (let (next, g1) = scrambleTiles tiles g in ((next, hasSolvedSide next), g1))"

function scrambleLoop :: "tile list \<Rightarrow> nat \<Rightarrow> (tile list \<times> bool) \<times> rng \<Rightarrow> tile list" where
  "scrambleLoop tiles attempt (result, g) =
     (if snd result \<and> attempt < 20
      then scrambleLoop tiles (attempt + 1) (scrambleWithoutSolved tiles g)
      else fst result)"
  by pat_completeness auto
termination
  by (relation "measure (\<lambda>(tiles, attempt, s). 20 - attempt)") auto

definition zenSeed :: js_string where
  "zenSeed = [122, 101, 110]"

definition makeBoard :: "(rat \<Rightarrow> int \<Rightarrow> nat list \<Rightarrow> nat) \<Rightarrow> js_string \<Rightarrow> difficulty \<Rightarrow> tile list option" where
  "makeBoard wroll seedText d =
     (let seed = hashStringToInt (if seedText = [] then zenSeed else seedText);
          cfg = boardConfigOf seedText d
      in case carveLoop wroll cfg seed 0 None of
           None \<Rightarrow> None
         | Some (m, g) \<Rightarrow>
             (let tiles = solvedTiles m
              in Some (scrambleLoop tiles 0 (scrambleWithoutSolved tiles g))))"

definition showBoard :: "tile list \<Rightarrow> (tile_type \<times> nat \<times> nat) list" where
  "showBoard b = map (\<lambda>t. (ttype t, rotation t, targetRotation t)) b"

declare carve.simps [simp del]
declare extraEdges.simps [simp del]
declare shuffle.simps [simp del]
declare reach.simps [simp del]
declare reduceCrosses.simps [simp del]
declare reduceTJunctions.simps [simp del]
declare growClusters.simps [simp del]
declare chooseBlanks.simps [simp del]
declare carveLoop.simps [simp del]
declare scrambleLoop.simps [simp del]
declare flood.simps [simp del]
declare floodPorts.simps [simp del]
declare bitLength.simps [simp del]

section \<open>Auxiliary notions for the proofs\<close>

definition sameSides :: "tile \<Rightarrow> tile \<Rightarrow> bool" where
  "sameSides t u = (tid t = tid u \<and> tr t = tr u \<and> tc t = tc u \<and> getEdges t = getEdges u)"

definition samePorts :: "tile \<Rightarrow> tile \<Rightarrow> bool" where
  "samePorts t u = (sameSides t u \<and>
     getInternalPortPairs t (getEdges t) = getInternalPortPairs u (getEdges u))"

definition mkTile :: "int \<Rightarrow> int \<Rightarrow> tile_type \<Rightarrow> nat \<Rightarrow> tile" where
  "mkTile r c ty rot = \<lparr>tid = (r, c), tr = r, tc = c, ttype = ty, rotation = rot,
      rotationDegrees = int rot * 90, targetRotation = rot\<rparr>"

definition crossBoard :: "nat \<Rightarrow> tile list" where
  "crossBoard rot = [mkTile 0 1 Terminal 0, mkTile 1 0 Terminal 3, mkTile 1 1 CrossCurve rot]"

text \<open>
  The edges of the port graph, as the specification describes them: \<open>joinedSides\<close> says which
  two sides of a tile an internal edge joins, \<open>isPort\<close> which ports exist, and \<open>externalEdge\<close>
  which ports of neighbouring tiles a connected side joins.
\<close>

definition joinedSides :: "tile \<Rightarrow> nat \<Rightarrow> nat \<Rightarrow> bool" where
  "joinedSides t a b =
     (if ttype t = CrossCurve then
        (if even (rotation t) then (a, b) \<in> set [(0, 3), (3, 0), (1, 2), (2, 1)]
         else (a, b) \<in> set [(0, 1), (1, 0), (2, 3), (3, 2)])
      else a \<noteq> b \<and> flag (getEdges t) a \<and> flag (getEdges t) b)"

definition internalEdge :: "tile \<Rightarrow> port \<Rightarrow> port \<Rightarrow> bool" where
  "internalEdge t p q = (fst p = tid t \<and> fst q = tid t \<and> joinedSides t (snd p) (snd q))"

definition isPort :: "tile list \<Rightarrow> port \<Rightarrow> bool" where
  "isPort tiles p = list_ex (\<lambda>u. fst p = tid u \<and> flag (getEdges u) (snd p)) tiles"

definition externalEdge :: "tile list \<Rightarrow> (cell \<times> bool list) list \<Rightarrow> tile \<Rightarrow> port \<Rightarrow> port \<Rightarrow> bool" where
  "externalEdge tiles connections t p q =
     list_ex (\<lambda>dir. flag (connectedFor connections (tid t)) dir \<and>
        (case byPosOf tiles (neighborCells (tr t) (tc t) ! dir) of
           None \<Rightarrow> False
         | Some n \<Rightarrow> isPort tiles (tid t, dir) \<and> isPort tiles (tid n, oppositeDir dir) \<and>
             ((p = (tid t, dir) \<and> q = (tid n, oppositeDir dir)) \<or>
              (q = (tid t, dir) \<and> p = (tid n, oppositeDir dir)))))
       [0, 1, 2, 3]"

definition extLink :: "(cell \<Rightarrow> tile option) \<Rightarrow> tile \<Rightarrow> nat \<Rightarrow> portAdj \<Rightarrow> port \<Rightarrow> port \<Rightarrow> bool" where
  "extLink byPos t dir adj p q =
     (dir < 4 \<and> (case byPos (neighborCells (tr t) (tc t) ! dir) of
        None \<Rightarrow> False
      | Some n \<Rightarrow> hasPort adj (tid t, dir) \<and> hasPort adj (tid n, oppositeDir dir) \<and>
          ((p = (tid t, dir) \<and> q = (tid n, oppositeDir dir)) \<or>
           (q = (tid t, dir) \<and> p = (tid n, oppositeDir dir)))))"

text \<open>
  An edge map is well formed when its keys are distinct cells of the grid, every edge array has
  four entries, and every open side leads to a cell of the grid whose opposite side is open.
\<close>

definition edgeOpen :: "edgeMap \<Rightarrow> cell \<Rightarrow> nat \<Rightarrow> bool" where
  "edgeOpen m k dir = flag (edgesAt m k) dir"

definition wellFormed :: "int \<Rightarrow> int \<Rightarrow> edgeMap \<Rightarrow> bool" where
  "wellFormed rows cols m =
     (distinct (map fst m) \<and>
      list_all (\<lambda>(k, e). inGrid rows cols k \<and> length e = 4 \<and>
          list_all (\<lambda>dir. e ! dir \<longrightarrow>
                      inGrid rows cols (neighborOf (fst k) (snd k) dir) \<and>
                      edgeOpen m (neighborOf (fst k) (snd k) dir) (oppositeDir dir))
            [0, 1, 2, 3]) m)"

definition goodCandidate :: "int \<Rightarrow> int \<Rightarrow> int \<times> int \<times> int \<times> int \<Rightarrow> bool" where
  "goodCandidate rows cols = (\<lambda>(r1, c1, r2, c2).
     inGrid rows cols (r1, c1) \<and> inGrid rows cols (r2, c2) \<and>
     ((r2 = r1 + 1 \<and> c2 = c1) \<or> (r2 = r1 \<and> c2 = c1 + 1)))"

definition interior :: "int \<Rightarrow> int \<Rightarrow> cell \<Rightarrow> bool" where
  "interior rows cols k = (1 \<le> fst k \<and> fst k \<le> rows - 2 \<and> 1 \<le> snd k \<and> snd k \<le> cols - 2)"



section \<open>The seed text round trip\<close>

lemma showNat_digits: "list_all isDigit (showNat n)"
proof (induction n rule: showNat.induct)
  case (1 n)
  show ?case
  proof (cases "n < 10")
    case True
    then show ?thesis by (subst showNat.simps) (simp add: isDigit_def)
  next
    case False
    have "n mod 10 < 10" by simp
    then have "isDigit (48 + int (n mod 10))" unfolding isDigit_def by linarith
    with False 1 show ?thesis by (subst showNat.simps) simp
  qed
qed

lemma showNat_nonempty: "showNat n \<noteq> []"
  by (subst showNat.simps) simp

lemma showNat_isDigits: "isDigits (showNat n)"
  by (simp add: isDigits_def showNat_digits showNat_nonempty)

lemma foldl_digits_append:
  "foldl (\<lambda>acc d. acc * 10 + (d - 48)) a (xs @ [y]) =
   foldl (\<lambda>acc d. acc * 10 + (d - 48)) a xs * 10 + (y - (48::int))"
  by simp

lemma digitsValue_showNat: "digitsValue (showNat n) = int n"
proof (induction n rule: showNat.induct)
  case (1 n)
  show ?case
  proof (cases "n < 10")
    case True
    then show ?thesis by (subst showNat.simps) (simp add: digitsValue_def)
  next
    case False
    with 1 have "digitsValue (showNat (n div 10)) = int (n div 10)" by simp
    then have "digitsValue (showNat (n div 10) @ [48 + int (n mod 10)]) = int (n div 10) * 10 + int (n mod 10)"
      by (simp add: digitsValue_def)
    also have "\<dots> = int n"
      by (simp add: zdiv_int zmod_int)
    finally show ?thesis using False by (subst showNat.simps) simp
  qed
qed

lemma splitOn_nonempty: "splitOn sep xs \<noteq> []"
  by (induction xs) (auto split: list.splits)

lemma splitOn_digits_end:
  "list_all isDigit ds \<Longrightarrow> splitOn 45 ds = [ds]"
  by (induction ds) (auto simp: isDigit_def)

lemma splitOn_digits_sep:
  "list_all isDigit ds \<Longrightarrow> splitOn 45 (ds @ 45 # rest) = ds # splitOn 45 rest"
  by (induction ds) (auto simp: isDigit_def)


lemma numberOf_showNat: "n \<le> 100 \<Longrightarrow> numberOf (showNat n) = Some (of_nat n)"
proof -
  assume "n \<le> 100"
  then have "int n < 2 ^ 1024 - 2 ^ 970" by simp
  then show ?thesis by (simp add: numberOf_def digitsValue_showNat)
qed

lemma normalizeField_range:
  "lo \<le> hi \<Longrightarrow> lo \<le> d \<Longrightarrow> d \<le> hi \<Longrightarrow>
   lo \<le> normalizeField raw lo hi d \<and> normalizeField raw lo hi d \<le> hi"
  by (cases raw) (auto simp: normalizeField_def clampValue_def)

lemma mathRound_of_nat: "mathRound (of_nat n) = int n"
  unfolding mathRound_def by (rule floor_unique) simp_all

lemma normalizeField_fixed:
  "lo \<le> int n \<Longrightarrow> int n \<le> hi \<Longrightarrow> normalizeField (Some (of_nat n)) lo hi d = int n"
  by (simp add: normalizeField_def clampValue_def mathRound_of_nat)

lemma matchSeed_built:
  "matchSeed 10 (80 # showNat a @ 45 # showNat b @ 45 # showNat c @ 45 # showNat d @ 45 #
      showNat e @ 45 # showNat f @ 45 # showNat g @ 45 # showNat h @ 45 # showNat i @ 45 # showNat j)
   = Some [showNat a, showNat b, showNat c, showNat d, showNat e, showNat f, showNat g,
           showNat h, showNat i, showNat j]"
  by (simp add: matchSeed_def splitOn_digits_sep splitOn_digits_end showNat_digits showNat_isDigits)

lemma parse_built:
  assumes "a \<le> 96" "b \<le> 4" "20 \<le> c" "c \<le> 40" "12 \<le> d" "d \<le> 24" "2 \<le> e" "e \<le> 6"
    "1 \<le> f" "f \<le> 5" "g \<le> 5" "h \<le> 5" "i \<le> 100" "j \<le> 9"
  shows "parseProgressionSeed (80 # showNat a @ 45 # showNat b @ 45 # showNat c @ 45 # showNat d @ 45 #
      showNat e @ 45 # showNat f @ 45 # showNat g @ 45 # showNat h @ 45 # showNat i @ 45 # showNat j)
    = Some \<lparr>gapRate = int a, gapClusters = int b, curveBias = int c, terminalRate = int d,
        terminalSpacing = int f, straightRunMax = int e, emptyRowMax = int g, emptyColMax = int h,
        centerBias = int i, variant = int j\<rparr>"
  using assms
  by (simp add: parseProgressionSeed_def matchSeed_built numberOf_showNat
      normalizeProgressionSettings_def normalizeField_fixed)

lemma normalized_ranges:
  fixes s :: "rat option progression option"
  defines "n \<equiv> normalizeProgressionSettings s"
  shows "0 \<le> gapRate n \<and> gapRate n \<le> 96" "0 \<le> gapClusters n \<and> gapClusters n \<le> 4"
    "20 \<le> curveBias n \<and> curveBias n \<le> 40" "12 \<le> terminalRate n \<and> terminalRate n \<le> 24"
    "1 \<le> terminalSpacing n \<and> terminalSpacing n \<le> 5" "2 \<le> straightRunMax n \<and> straightRunMax n \<le> 6"
    "0 \<le> emptyRowMax n \<and> emptyRowMax n \<le> 5" "0 \<le> emptyColMax n \<and> emptyColMax n \<le> 5"
    "0 \<le> centerBias n \<and> centerBias n \<le> 100" "0 \<le> variant n \<and> variant n \<le> 9"
  unfolding n_def normalizeProgressionSettings_def DEFAULT_PROGRESSION_SETTINGS_def
  by (cases s; simp add: normalizeField_range)+

lemma showInt_nonneg: "0 \<le> v \<Longrightarrow> showInt v = showNat (nat v)"
  by (simp add: showInt_def)

text \<open>
  Claim C2. For every settings argument, parsing the seed text built from it gives the
  normalized settings; a string that matches none of the three formats, such as \<open>nope\<close>,
  parses to null; the parser is a total function, so it does not throw.
\<close>

theorem progression_seed_roundtrip:
  "parseProgressionSeed (buildProgressionSeed s) = Some (normalizeProgressionSettings s)
   \<and> (matchSeed 10 str = None \<and> matchSeed 9 str = None \<and> matchSeed 6 str = None
        \<longrightarrow> parseProgressionSeed str = None)
   \<and> parseProgressionSeed (jsString ''nope'') = None"
proof -
  have rt: "parseProgressionSeed (buildProgressionSeed s) = Some (normalizeProgressionSettings s)"
  proof -
    define n where "n = normalizeProgressionSettings s"
    note r = normalized_ranges [of s, folded n_def]
    have "parseProgressionSeed (buildProgressionSeed s) =
        Some \<lparr>gapRate = int (nat (gapRate n)), gapClusters = int (nat (gapClusters n)),
          curveBias = int (nat (curveBias n)), terminalRate = int (nat (terminalRate n)),
          terminalSpacing = int (nat (terminalSpacing n)), straightRunMax = int (nat (straightRunMax n)),
          emptyRowMax = int (nat (emptyRowMax n)), emptyColMax = int (nat (emptyColMax n)),
          centerBias = int (nat (centerBias n)), variant = int (nat (variant n))\<rparr>"
    proof -
      have "showInt (gapRate n) = showNat (nat (gapRate n))"
        "showInt (gapClusters n) = showNat (nat (gapClusters n))"
        "showInt (curveBias n) = showNat (nat (curveBias n))"
        "showInt (terminalRate n) = showNat (nat (terminalRate n))"
        "showInt (terminalSpacing n) = showNat (nat (terminalSpacing n))"
        "showInt (straightRunMax n) = showNat (nat (straightRunMax n))"
        "showInt (emptyRowMax n) = showNat (nat (emptyRowMax n))"
        "showInt (emptyColMax n) = showNat (nat (emptyColMax n))"
        "showInt (centerBias n) = showNat (nat (centerBias n))"
        "showInt (variant n) = showNat (nat (variant n))"
        using r by (simp_all add: showInt_nonneg)
      moreover have "parseProgressionSeed (80 # showNat (nat (gapRate n)) @ 45 #
          showNat (nat (gapClusters n)) @ 45 # showNat (nat (curveBias n)) @ 45 #
          showNat (nat (terminalRate n)) @ 45 # showNat (nat (straightRunMax n)) @ 45 #
          showNat (nat (terminalSpacing n)) @ 45 # showNat (nat (emptyRowMax n)) @ 45 #
          showNat (nat (emptyColMax n)) @ 45 # showNat (nat (centerBias n)) @ 45 #
          showNat (nat (variant n))) =
        Some \<lparr>gapRate = int (nat (gapRate n)), gapClusters = int (nat (gapClusters n)),
          curveBias = int (nat (curveBias n)), terminalRate = int (nat (terminalRate n)),
          terminalSpacing = int (nat (terminalSpacing n)), straightRunMax = int (nat (straightRunMax n)),
          emptyRowMax = int (nat (emptyRowMax n)), emptyColMax = int (nat (emptyColMax n)),
          centerBias = int (nat (centerBias n)), variant = int (nat (variant n))\<rparr>"
        by (rule parse_built) (use r in arith)+
      ultimately show ?thesis
        unfolding buildProgressionSeed_def Let_def n_def [symmetric]
        by (simp only:)
    qed
    also have "\<dots> = Some n"
      using r by simp
    finally show ?thesis by (simp add: n_def)
  qed
  have nope: "parseProgressionSeed (jsString ''nope'') = None"
    by (simp add: parseProgressionSeed_def matchSeed_def jsString_def)
  show ?thesis
    using rt nope by (simp add: parseProgressionSeed_def)
qed

theorem progression_seed_roundtrip_witness:
  "parseProgressionSeed (buildProgressionSeed None) = Some (normalizeProgressionSettings None)
   \<and> matchSeed 10 (jsString ''P1-2'') = None \<and> matchSeed 9 (jsString ''P1-2'') = None
   \<and> matchSeed 6 (jsString ''P1-2'') = None
   \<and> parseProgressionSeed (jsString ''P1-2'') = None"
  using progression_seed_roundtrip [of None "jsString ''P1-2''"]
  by (simp add: matchSeed_def jsString_def isDigit_def isDigits_def)

section \<open>The internal port pairs\<close>

lemma upt4: "[0..<4] = [0, 1, 2, 3]"
  by (simp add: upt_rec)

lemma openDirs4:
  "openDirs [n, e, s, w] =
     (if n then [0] else []) @ (if e then [1] else []) @ (if s then [2] else []) @ (if w then [3] else [])"
  by (simp add: openDirs_def upt4)

lemma rotateEdges_cases:
  "rotateEdges [n, e, s, w] k \<in> {[n, e, s, w], [w, n, e, s], [s, w, n, e], [e, s, w, n]}"
proof (induction k arbitrary: n e s w)
  case 0
  show ?case by (simp add: flag_def)
next
  case (Suc k)
  have "turnEdges [n, e, s, w] = [w, n, e, s]"
    by (simp add: turnEdges_def flag_def)
  with Suc [of w n e s] show ?case by auto
qed

lemma hasPort_update: "hasPort (AList.update k v adj) p = (hasPort adj p \<or> p = k)"
  by (auto simp: hasPort_def update_conv')

lemma adjOf_update: "adjOf (AList.update k v adj) p = (if p = k then v else adjOf adj p)"
  by (simp add: adjOf_def update_conv')

lemma hasPort_link: "hasPort (link a b adj) p = hasPort adj p"
  by (auto simp: link_def Let_def hasPort_update)

lemma adjOf_link:
  "q \<in> set (adjOf (link a b adj) p) \<longleftrightarrow>
     q \<in> set (adjOf adj p) \<or>
     (hasPort adj a \<and> hasPort adj b \<and> ((p = a \<and> q = b) \<or> (p = b \<and> q = a)))"
  by (auto simp: link_def Let_def adjOf_update setAdd_def)

lemma length_rotateEdges: "length (rotateEdges es k) = 4"
  by (induction es k rule: rotateEdges.induct) simp_all

lemma length_getEdges: "length (getEdges t) = 4"
  by (simp add: getEdges_def length_rotateEdges)

lemma set_openDirs: "d \<in> set (openDirs es) \<longleftrightarrow> flag es d"
  by (auto simp: openDirs_def flag_def)

lemma distinct_openDirs: "distinct (openDirs es)"
  by (simp add: openDirs_def)

lemma fold_addPort:
  "fold (addPort i conn) ds (adj, dg, al) = (adj', dg', al') \<Longrightarrow>
     (hasPort adj' p \<longleftrightarrow> hasPort adj p \<or> (fst p = i \<and> snd p \<in> set ds))
     \<and> adjOf adj' p = adjOf adj p"
proof (induction ds arbitrary: adj dg al)
  case Nil
  then show ?case by simp
next
  case (Cons d ds)
  obtain adj1 dg1 al1 where s: "addPort i conn d (adj, dg, al) = (adj1, dg1, al1)"
    by (cases "addPort i conn d (adj, dg, al)")
  then have adj1: "adj1 = (if hasPort adj (i, d) then adj else adj @ [((i, d), [])])"
    by (simp add: addPort_def)
  have h: "hasPort adj1 p \<longleftrightarrow> hasPort adj p \<or> p = (i, d)"
    unfolding adj1 by (auto simp: hasPort_def map_add_def split: option.splits)
  have a: "adjOf adj1 p = adjOf adj p"
    unfolding adj1 by (auto simp: adjOf_def hasPort_def map_add_def split: option.splits)
  from Cons.prems s have "fold (addPort i conn) ds (adj1, dg1, al1) = (adj', dg', al')"
    by simp
  from Cons.IH [OF this] h a show ?case
    by (cases p) auto
qed

lemma fold_link:
  "(hasPort (fold (\<lambda>(a, b). link (i, a) (i, b)) ps adj) p \<longleftrightarrow> hasPort adj p)
   \<and> (q \<in> set (adjOf (fold (\<lambda>(a, b). link (i, a) (i, b)) ps adj) p) \<longleftrightarrow>
        q \<in> set (adjOf adj p) \<or>
        (\<exists>(a, b) \<in> set ps. hasPort adj (i, a) \<and> hasPort adj (i, b) \<and>
            ((p = (i, a) \<and> q = (i, b)) \<or> (p = (i, b) \<and> q = (i, a)))))"
proof (induction ps arbitrary: adj)
  case Nil
  then show ?case by simp
next
  case (Cons x ps)
  obtain a b where x: "x = (a, b)" by (cases x)
  show ?case
    unfolding x using Cons.IH [of "link (i, a) (i, b) adj"]
    by (simp add: hasPort_link adjOf_link)
qed

lemma pairs_closed:
  "(\<exists>(a, b) \<in> set (getInternalPortPairs t (getEdges t)).
       flag (getEdges t) a \<and> flag (getEdges t) b \<and> ((x = a \<and> y = b) \<or> (x = b \<and> y = a)))
   \<longleftrightarrow> joinedSides t x y"
proof (cases "ttype t = CrossCurve")
  case True
  then show ?thesis
    by (auto simp: getInternalPortPairs_def joinedSides_def getEdges_def flag_def
        even_iff_mod_2_eq_zero)
next
  case False
  have two: "length (openDirs (rotateEdges [n, e, s, w] k)) = length (filter id [n, e, s, w])" for n e s w k
    using rotateEdges_cases [of n e s w k] by (auto simp: openDirs4)
  have len: "length (openDirs (getEdges t)) \<le> 3"
    using False by (cases "ttype t") (simp_all add: getEdges_def two)
  have d: "distinct (openDirs (getEdges t))" by (rule distinct_openDirs)
  have m: "flag (getEdges t) z \<longleftrightarrow> z \<in> set (openDirs (getEdges t))" for z
    by (simp add: set_openDirs)
  show ?thesis
  proof (cases "openDirs (getEdges t)")
    case Nil
    then show ?thesis using False by (simp add: getInternalPortPairs_def joinedSides_def m)
  next
    case (Cons a as)
    note A = this
    show ?thesis
    proof (cases as)
      case Nil
      then show ?thesis using False A by (auto simp: getInternalPortPairs_def joinedSides_def m)
    next
      case (Cons b bs)
      note B = this
      show ?thesis
      proof (cases bs)
        case Nil
        then show ?thesis using False A B d
          by (auto simp: getInternalPortPairs_def joinedSides_def m)
      next
        case (Cons c cs)
        with len A B have "cs = []" by simp
        then show ?thesis using False A B Cons d
          by (auto simp: getInternalPortPairs_def joinedSides_def m)
      qed
    qed
  qed
qed


lemma pairs_case_mem:
  assumes "(a, b) \<in> set (case xs of [a, b] \<Rightarrow> [(a, b)] | [a, b, c] \<Rightarrow> [(a, b), (b, c), (a, c)] | _ \<Rightarrow> [])"
  shows "a \<in> set xs \<and> b \<in> set xs"
proof (cases xs)
  case Nil
  with assms show ?thesis by simp
next
  case (Cons x ys)
  note X = this
  show ?thesis
  proof (cases ys)
    case Nil
    with X assms show ?thesis by simp
  next
    case (Cons y zs)
    note Y = this
    show ?thesis
    proof (cases zs)
      case Nil
      with X Y assms show ?thesis by auto
    next
      case (Cons z ws)
      with X Y assms show ?thesis by (cases ws) auto
    qed
  qed
qed

lemma hasPort_Nil: "hasPort [] p = False"
  by (simp add: hasPort_def)

lemma adjOf_Nil: "adjOf [] p = []"
  by (simp add: adjOf_def)

lemma pairs_open:
  assumes "(a, b) \<in> set (getInternalPortPairs t (getEdges t))"
  shows "flag (getEdges t) a \<and> flag (getEdges t) b"
proof (cases "ttype t = CrossCurve")
  case True
  with assms show ?thesis
    by (auto simp: getInternalPortPairs_def getEdges_def flag_def split: if_splits)
next
  case False
  have m: "flag (getEdges t) z \<longleftrightarrow> z \<in> set (openDirs (getEdges t))" for z
    by (simp add: set_openDirs)
  from False assms show ?thesis
    unfolding m using pairs_case_mem [of a b "openDirs (getEdges t)"]
    by (simp add: getInternalPortPairs_def)
qed

lemma portsOfTile_graph:
  assumes "portsOfTile cs t (adj, dg, al) = (adj', dg', al')"
  shows "hasPort adj' p \<longleftrightarrow> hasPort adj p \<or> (fst p = tid t \<and> flag (getEdges t) (snd p))"
    and "q \<in> set (adjOf adj' p) \<longleftrightarrow> q \<in> set (adjOf adj p) \<or> internalEdge t p q"
proof -
  obtain adj1 dg1 al1 where
    f: "fold (addPort (tid t) (connectedFor cs (tid t))) (openDirs (getEdges t)) (adj, dg, al)
          = (adj1, dg1, al1)"
    by (cases "fold (addPort (tid t) (connectedFor cs (tid t))) (openDirs (getEdges t)) (adj, dg, al)")
  have adj': "adj' = fold (\<lambda>(a, b). link (tid t, a) (tid t, b))
                        (getInternalPortPairs t (getEdges t)) adj1"
    using assms f by (simp add: portsOfTile_def Let_def)
  have h1: "hasPort adj1 x \<longleftrightarrow> hasPort adj x \<or> (fst x = tid t \<and> flag (getEdges t) (snd x))" for x
    using fold_addPort [OF f, of x] by (simp add: set_openDirs)
  have a1: "adjOf adj1 x = adjOf adj x" for x
    using fold_addPort [OF f, of x] by simp
  show "hasPort adj' p \<longleftrightarrow> hasPort adj p \<or> (fst p = tid t \<and> flag (getEdges t) (snd p))"
    unfolding adj' using fold_link [of "tid t" _ adj1 p] h1 by simp
  have "(\<exists>(a, b) \<in> set (getInternalPortPairs t (getEdges t)).
            hasPort adj1 (tid t, a) \<and> hasPort adj1 (tid t, b) \<and>
            ((p = (tid t, a) \<and> q = (tid t, b)) \<or> (p = (tid t, b) \<and> q = (tid t, a))))
        \<longleftrightarrow> (fst p = tid t \<and> fst q = tid t \<and>
            (\<exists>(a, b) \<in> set (getInternalPortPairs t (getEdges t)).
               flag (getEdges t) a \<and> flag (getEdges t) b \<and>
               ((snd p = a \<and> snd q = b) \<or> (snd p = b \<and> snd q = a))))"
    (is "?L \<longleftrightarrow> ?R")
  proof
    assume ?L
    then obtain a b where ab: "(a, b) \<in> set (getInternalPortPairs t (getEdges t))"
      and pq: "(p = (tid t, a) \<and> q = (tid t, b)) \<or> (p = (tid t, b) \<and> q = (tid t, a))"
      by blast
    from pairs_open [OF ab] ab pq show ?R by auto
  next
    assume ?R
    then obtain a b where ab: "(a, b) \<in> set (getInternalPortPairs t (getEdges t))"
      and fp: "fst p = tid t" "fst q = tid t"
      and pq: "(snd p = a \<and> snd q = b) \<or> (snd p = b \<and> snd q = a)"
      by blast
    from pairs_open [OF ab] have "hasPort adj1 (tid t, a)" "hasPort adj1 (tid t, b)"
      by (simp_all add: h1)
    moreover from fp pq have "(p = (tid t, a) \<and> q = (tid t, b)) \<or> (p = (tid t, b) \<and> q = (tid t, a))"
      by (cases p; cases q) auto
    ultimately show ?L using ab by blast
  qed
  then show "q \<in> set (adjOf adj' p) \<longleftrightarrow> q \<in> set (adjOf adj p) \<or> internalEdge t p q"
    unfolding adj' internalEdge_def pairs_closed [symmetric]
    using fold_link [of "tid t" "getInternalPortPairs t (getEdges t)" adj1 p q] a1 by simp
qed

lemma fold_portsOfTile_graph:
  "fold (portsOfTile cs) ts (adj, dg, al) = (adj', dg', al') \<Longrightarrow>
     (hasPort adj' p \<longleftrightarrow> hasPort adj p \<or> (\<exists>t \<in> set ts. fst p = tid t \<and> flag (getEdges t) (snd p)))
   \<and> (q \<in> set (adjOf adj' p) \<longleftrightarrow> q \<in> set (adjOf adj p) \<or> (\<exists>t \<in> set ts. internalEdge t p q))"
proof (induction ts arbitrary: adj dg al)
  case Nil
  then show ?case by simp
next
  case (Cons t ts)
  obtain adj1 dg1 al1 where s: "portsOfTile cs t (adj, dg, al) = (adj1, dg1, al1)"
    by (cases "portsOfTile cs t (adj, dg, al)")
  with Cons.prems have "fold (portsOfTile cs) ts (adj1, dg1, al1) = (adj', dg', al')"
    by simp
  from Cons.IH [OF this] portsOfTile_graph [OF s, of p] portsOfTile_graph(2) [OF s, of q p]
  show ?case by auto
qed

lemma fold_external_dirs:
  fixes byPos t
  defines "step \<equiv> (\<lambda>dir a. if dir < 4 then
                  (case byPos (neighborCells (tr t) (tc t) ! dir) of
                     None \<Rightarrow> a
                   | Some n \<Rightarrow> link (tid t, dir) (tid n, oppositeDir dir) a)
                else a)"
  shows "(hasPort (fold step ds adj) p \<longleftrightarrow> hasPort adj p)
       \<and> (q \<in> set (adjOf (fold step ds adj) p) \<longleftrightarrow>
            q \<in> set (adjOf adj p) \<or> (\<exists>dir \<in> set ds. extLink byPos t dir adj p q))"
proof (induction ds arbitrary: adj)
  case Nil
  then show ?case by simp
next
  case (Cons d ds)
  have h: "hasPort (step d adj) x = hasPort adj x" for x
    by (simp add: step_def hasPort_link split: option.splits)
  have e: "extLink byPos t dir (step d adj) p q = extLink byPos t dir adj p q" for dir
    by (simp add: extLink_def h split: option.splits)
  have a: "q \<in> set (adjOf (step d adj) p) \<longleftrightarrow> q \<in> set (adjOf adj p) \<or> extLink byPos t d adj p q"
    by (auto simp: step_def extLink_def adjOf_link split: option.splits)
  show ?case
    using Cons.IH [of "step d adj"] by (auto simp: h e a)
qed

lemma externalOfTile_graph:
  "(hasPort (externalOfTile byPos cs t adj) p \<longleftrightarrow> hasPort adj p)
   \<and> (q \<in> set (adjOf (externalOfTile byPos cs t adj) p) \<longleftrightarrow>
        q \<in> set (adjOf adj p) \<or>
        (\<exists>dir. flag (connectedFor cs (tid t)) dir \<and> extLink byPos t dir adj p q))"
  unfolding externalOfTile_def Let_def
  using fold_external_dirs [where byPos = byPos and t = t
      and ds = "openDirs (connectedFor cs (tid t))" and adj = adj and p = p and q = q]
  by (auto simp: set_openDirs)

lemma fold_externalOfTile_graph:
  "(hasPort (fold (externalOfTile byPos cs) ts adj) p \<longleftrightarrow> hasPort adj p)
   \<and> (q \<in> set (adjOf (fold (externalOfTile byPos cs) ts adj) p) \<longleftrightarrow>
        q \<in> set (adjOf adj p) \<or>
        (\<exists>t \<in> set ts. \<exists>dir. flag (connectedFor cs (tid t)) dir \<and> extLink byPos t dir adj p q))"
proof (induction ts arbitrary: adj)
  case Nil
  then show ?case by simp
next
  case (Cons t ts)
  have h: "hasPort (externalOfTile byPos cs t adj) x = hasPort adj x" for x
    using externalOfTile_graph [of byPos cs t adj x] by simp
  have e: "extLink byPos u dir (externalOfTile byPos cs t adj) p q = extLink byPos u dir adj p q"
    for u dir
    by (simp add: extLink_def h split: option.splits)
  show ?case
    using Cons.IH [of "externalOfTile byPos cs t adj"] externalOfTile_graph [of byPos cs t adj p q]
    by (auto simp: h e)
qed

lemma externalEdge_iff:
  assumes "\<And>x. hasPort adj x \<longleftrightarrow> isPort tiles x"
  shows "externalEdge tiles cs t p q \<longleftrightarrow>
     (\<exists>dir. flag (connectedFor cs (tid t)) dir \<and> extLink (byPosOf tiles) t dir adj p q)"
proof -
  have "(\<exists>dir. dir < (4::nat) \<and> P dir) \<longleftrightarrow> P 0 \<or> P 1 \<or> P 2 \<or> P 3" for P
  proof -
    have "dir < 4 \<longleftrightarrow> dir = 0 \<or> dir = 1 \<or> dir = 2 \<or> dir = 3" for dir :: nat
      by auto
    then show ?thesis by auto
  qed
  note four = this
  have "(\<exists>dir. flag (connectedFor cs (tid t)) dir \<and> extLink (byPosOf tiles) t dir adj p q)
      \<longleftrightarrow> (\<exists>dir. dir < 4 \<and> flag (connectedFor cs (tid t)) dir \<and>
             extLink (byPosOf tiles) t dir adj p q)"
    by (auto simp: extLink_def)
  also have "\<dots> \<longleftrightarrow> externalEdge tiles cs t p q"
    unfolding four externalEdge_def
    by (auto simp: extLink_def assms split: option.splits)
  finally show ?thesis by simp
qed

text \<open>
  Claim C3, amended. In the port graph built by \<open>computeCompleteDirs\<close>, a port \<open>q\<close> is adjacent
  to a port \<open>p\<close> exactly when some tile joins them by an internal edge or by an external edge.
  The internal edges of a cross join its four ports in two pairs of adjacent sides chosen by
  the parity of its rotation (north with west and east with south when even, north with east
  and south with west when odd); a tile of another type joins every two distinct open sides
  of its own, which is the one pair of a tile with two open sides and all three pairs of a
  T-junction.
\<close>

theorem port_graph_edges:
  "q \<in> set (adjOf (fst (buildPorts tiles connections)) p) \<longleftrightarrow>
     list_ex (\<lambda>t. internalEdge t p q \<or> externalEdge tiles connections t p q) tiles"
proof -
  obtain adj1 dg1 al1 where
    f: "fold (portsOfTile connections) tiles ([], [], []) = (adj1, dg1, al1)"
    by (cases "fold (portsOfTile connections) tiles ([], [], [])")
  have b: "fst (buildPorts tiles connections)
            = fold (externalOfTile (byPosOf tiles) connections) tiles adj1"
    by (simp add: buildPorts_def f)
  have h: "hasPort adj1 x \<longleftrightarrow> isPort tiles x" for x
    using fold_portsOfTile_graph [OF f, of x]
    by (auto simp: isPort_def hasPort_Nil list_ex_iff)
  have i: "y \<in> set (adjOf adj1 x) \<longleftrightarrow> (\<exists>t \<in> set tiles. internalEdge t x y)" for x y
    using fold_portsOfTile_graph [OF f, of x y] by (simp add: adjOf_Nil)
  show ?thesis
    unfolding b list_ex_iff
    using fold_externalOfTile_graph [of "byPosOf tiles" connections tiles adj1 p q]
    by (auto simp: i externalEdge_iff [OF h])
qed

theorem port_graph_edges_witness:
  "((1, 1), 3) \<in> set (adjOf (fst (buildPorts (crossBoard 0) (computeConnections (crossBoard 0))))
      ((1, 1), 0))
   \<and> list_ex (\<lambda>t. internalEdge t ((1, 1), 0) ((1, 1), 3)
          \<or> externalEdge (crossBoard 0) (computeConnections (crossBoard 0)) t ((1, 1), 0) ((1, 1), 3))
        (crossBoard 0)"
proof -
  have "internalEdge (mkTile 1 1 CrossCurve 0) ((1, 1), 0) ((1, 1), 3)"
    by (simp add: internalEdge_def joinedSides_def mkTile_def)
  then have "list_ex (\<lambda>t. internalEdge t ((1, 1), 0) ((1, 1), 3)
          \<or> externalEdge (crossBoard 0) (computeConnections (crossBoard 0)) t ((1, 1), 0) ((1, 1), 3))
        (crossBoard 0)"
    by (simp add: crossBoard_def)
  then show ?thesis
    using port_graph_edges [of "((1, 1), 3)" "crossBoard 0" "computeConnections (crossBoard 0)"
        "((1, 1), 0)"]
    by simp
qed

text \<open>
  The claim as written fails: at an even rotation the cross pairs north (0) with west (3) and
  east (1) with south (2), and neither pair is a pair of opposite sides. In the port graph of
  a board with a cross at rotation 0, the north port of the cross is adjacent to its west port
  and to the terminal above it, and not to its south port.
\<close>

theorem cross_pairs_not_opposite:
  "getInternalPortPairs (mkTile 1 1 CrossCurve 0) (getEdges (mkTile 1 1 CrossCurve 0))
     = [(0, 3), (1, 2)]
   \<and> oppositeDir 0 \<noteq> 3 \<and> oppositeDir 1 \<noteq> 2
   \<and> adjOf (fst (buildPorts (crossBoard 0) (computeConnections (crossBoard 0)))) ((1, 1), 0)
       = [((1, 1), 3), ((0, 1), 2)]
   \<and> ((1, 1), oppositeDir 0)
       \<notin> set (adjOf (fst (buildPorts (crossBoard 0) (computeConnections (crossBoard 0)))) ((1, 1), 0))"
  by code_simp

section \<open>Rotating a cross\<close>

lemma byPos_fold_rel:
  "list_all2 sameSides ts us \<Longrightarrow> (\<And>p. rel_option sameSides (m p) (m' p)) \<Longrightarrow>
   rel_option sameSides (fold (\<lambda>t m. m((tr t, tc t) \<mapsto> t)) ts m p)
                        (fold (\<lambda>t m. m((tr t, tc t) \<mapsto> t)) us m' p)"
proof (induction ts us arbitrary: m m' rule: list_all2_induct)
  case Nil
  then show ?case by simp
next
  case (Cons t ts u us)
  have pos: "(tr t, tc t) = (tr u, tc u)"
    using Cons.hyps(1) by (simp add: sameSides_def)
  have "rel_option sameSides ((m((tr t, tc t) \<mapsto> t)) q) ((m'((tr u, tc u) \<mapsto> u)) q)" for q
    using Cons.hyps(1) Cons.prems [of q] unfolding pos by (cases "q = (tr u, tc u)") simp_all
  from Cons.IH [OF this] show ?case by simp
qed

lemma byPosOf_rel:
  "list_all2 sameSides ts us \<Longrightarrow> rel_option sameSides (byPosOf ts p) (byPosOf us p)"
  unfolding byPosOf_def by (rule byPos_fold_rel) simp_all

lemma connectedOf_rel:
  assumes "sameSides t u" and "\<And>p. rel_option sameSides (bp p) (bq p)"
  shows "connectedOf bp t = connectedOf bq u"
proof -
  have "(case bp p of None \<Rightarrow> False | Some n \<Rightarrow> flag (getEdges n) d) =
        (case bq p of None \<Rightarrow> False | Some n \<Rightarrow> flag (getEdges n) d)" for p d
    using assms(2) [of p] by (cases "bp p"; cases "bq p") (auto simp: sameSides_def)
  then show ?thesis
    using assms(1) by (simp add: connectedOf_def sameSides_def)
qed

lemma connections_fold_rel:
  assumes "list_all2 sameSides ts us" and "\<And>p. rel_option sameSides (bp p) (bq p)"
  shows "fold (\<lambda>t m. AList.update (tid t) (connectedOf bp t) m) ts acc =
         fold (\<lambda>t m. AList.update (tid t) (connectedOf bq t) m) us acc"
  using assms(1)
proof (induction ts us arbitrary: acc rule: list_all2_induct)
  case Nil
  then show ?case by simp
next
  case (Cons t ts u us)
  have "connectedOf bp t = connectedOf bq u"
    using Cons.hyps(1) assms(2) by (rule connectedOf_rel)
  moreover have "tid t = tid u"
    using Cons.hyps(1) by (simp add: sameSides_def)
  ultimately show ?case
    using Cons.IH by simp
qed

lemma computeConnections_rel:
  "list_all2 sameSides ts us \<Longrightarrow> computeConnections ts = computeConnections us"
  unfolding computeConnections_def
  by (rule connections_fold_rel) (simp_all add: byPosOf_rel)

lemma portsOfTile_rel:
  assumes "samePorts t u"
  shows "portsOfTile cs t = portsOfTile cs u"
proof
  fix s
  have i: "tid t = tid u" and e: "getEdges t = getEdges u"
    and p: "getInternalPortPairs t (getEdges t) = getInternalPortPairs u (getEdges u)"
    using assms unfolding samePorts_def sameSides_def by blast+
  show "portsOfTile cs t s = portsOfTile cs u s"
    unfolding portsOfTile_def Let_def p unfolding i e ..
qed

lemma externalOfTile_rel:
  assumes "sameSides t u" and "\<And>p. rel_option sameSides (bp p) (bq p)"
  shows "externalOfTile bp cs t = externalOfTile bq cs u"
proof -
  have "(case bp p of None \<Rightarrow> a | Some n \<Rightarrow> link x (tid n, d) a) =
        (case bq p of None \<Rightarrow> a | Some n \<Rightarrow> link x (tid n, d) a)" for p d a x
    using assms(2) [of p] by (cases "bp p"; cases "bq p") (auto simp: sameSides_def)
  then have "(\<lambda>dir a. if dir < 4 then
                  (case bp (neighborCells (tr u) (tc u) ! dir) of
                     None \<Rightarrow> a
                   | Some n \<Rightarrow> link (tid u, dir) (tid n, oppositeDir dir) a)
                else a) =
             (\<lambda>dir a. if dir < 4 then
                  (case bq (neighborCells (tr u) (tc u) ! dir) of
                     None \<Rightarrow> a
                   | Some n \<Rightarrow> link (tid u, dir) (tid n, oppositeDir dir) a)
                else a)"
    by (intro ext) simp
  moreover have "tid t = tid u" "tr t = tr u" "tc t = tc u"
    using assms(1) by (simp_all add: sameSides_def)
  ultimately show ?thesis
    unfolding externalOfTile_def by (intro ext) (simp only:)
qed

lemma fold_rel_eq:
  "list_all2 (\<lambda>x y. f x = g y) xs ys \<Longrightarrow> fold f xs s = fold g ys s"
  by (induction xs ys arbitrary: s rule: list_all2_induct) simp_all

lemma buildPorts_rel:
  assumes "list_all2 samePorts ts us"
  shows "buildPorts ts cs = buildPorts us cs"
proof -
  have ss: "list_all2 sameSides ts us"
    using assms by (rule list_all2_mono) (simp add: samePorts_def)
  have "fold (portsOfTile cs) ts s = fold (portsOfTile cs) us s" for s
    by (rule fold_rel_eq) (rule list_all2_mono [OF assms], simp add: portsOfTile_rel)
  moreover have "fold (externalOfTile (byPosOf ts) cs) ts a =
                 fold (externalOfTile (byPosOf us) cs) us a" for a
    by (rule fold_rel_eq) (rule list_all2_mono [OF ss], simp add: externalOfTile_rel byPosOf_rel ss)
  ultimately show ?thesis
    by (simp add: buildPorts_def)
qed

lemma computeCompleteDirs_rel:
  assumes "list_all2 samePorts ts us"
  shows "computeCompleteDirs ts cs = computeCompleteDirs us cs"
proof -
  have "completePorts ts cs = completePorts us cs"
    by (simp add: completePorts_def buildPorts_rel [OF assms])
  moreover have "fold (\<lambda>t m. AList.update (tid t) (map (\<lambda>dir. (tid t, dir) \<in> set C) [0::nat, 1, 2, 3]) m) ts acc =
        fold (\<lambda>t m. AList.update (tid t) (map (\<lambda>dir. (tid t, dir) \<in> set C) [0::nat, 1, 2, 3]) m) us acc" for C acc
    by (rule fold_rel_eq) (rule list_all2_mono [OF assms], simp add: samePorts_def sameSides_def)
  ultimately show ?thesis
    by (simp add: computeCompleteDirs_def)
qed

lemma list_all2_update_self:
  assumes "i < length ts" and "R (ts ! i) u" and "\<And>x. R x x"
  shows "list_all2 R ts (ts[i := u])"
  using assms by (auto simp: list_all2_conv_all_nth nth_list_update)

text \<open>
  Claim C10. Changing only the rotation of a cross tile leaves the output of
  \<open>computeConnections\<close> unchanged for every tile; the completion map depends on the new rotation
  through its parity alone, so it is unchanged too when the parity is.
\<close>

theorem cross_rotation_keeps_connections:
  assumes "i < length tiles" and "ttype (tiles ! i) = CrossCurve"
  shows "computeConnections (tiles[i := (tiles ! i)\<lparr>rotation := k, rotationDegrees := d\<rparr>])
           = computeConnections tiles
       \<and> (k mod 2 = rotation (tiles ! i) mod 2 \<longrightarrow>
            computeCompleteDirs (tiles[i := (tiles ! i)\<lparr>rotation := k, rotationDegrees := d\<rparr>]) cs
              = computeCompleteDirs tiles cs)"
proof -
  let ?u = "(tiles ! i)\<lparr>rotation := k, rotationDegrees := d\<rparr>"
  have side: "sameSides (tiles ! i) ?u"
    using assms(2) by (simp add: sameSides_def getEdges_def)
  have "list_all2 sameSides tiles (tiles[i := ?u])"
    using assms(1) side by (rule list_all2_update_self) (simp add: sameSides_def)
  then have c: "computeConnections (tiles[i := ?u]) = computeConnections tiles"
    by (simp add: computeConnections_rel)
  have "computeCompleteDirs (tiles[i := ?u]) cs = computeCompleteDirs tiles cs"
    if "k mod 2 = rotation (tiles ! i) mod 2"
  proof -
    have "samePorts (tiles ! i) ?u"
      using side assms(2) that by (simp add: samePorts_def getInternalPortPairs_def)
    with assms(1) have "list_all2 samePorts tiles (tiles[i := ?u])"
      by (rule list_all2_update_self) (simp add: samePorts_def sameSides_def)
    then show ?thesis
      by (simp add: computeCompleteDirs_rel)
  qed
  with c show ?thesis by simp
qed

theorem cross_rotation_keeps_connections_witness:
  "2 < length (crossBoard 0) \<and> ttype (crossBoard 0 ! 2) = CrossCurve
   \<and> computeConnections ((crossBoard 0)[2 := (crossBoard 0 ! 2)\<lparr>rotation := 2, rotationDegrees := 180\<rparr>])
        = computeConnections (crossBoard 0)
   \<and> computeCompleteDirs ((crossBoard 0)[2 := (crossBoard 0 ! 2)\<lparr>rotation := 2, rotationDegrees := 180\<rparr>])
          (computeConnections (crossBoard 0))
        = computeCompleteDirs (crossBoard 0) (computeConnections (crossBoard 0))"
proof -
  have a: "2 < length (crossBoard 0)" and b: "ttype (crossBoard 0 ! 2) = CrossCurve"
    by (simp_all add: crossBoard_def mkTile_def)
  have c: "2 mod 2 = rotation (crossBoard 0 ! 2) mod 2"
    by (simp add: crossBoard_def mkTile_def)
  show ?thesis
    using a b c cross_rotation_keeps_connections [OF a b, where k = 2 and d = 180
        and cs = "computeConnections (crossBoard 0)"]
    by simp
qed

text \<open>
  The completion map can differ when the parity changes: with a terminal north and a terminal
  west of the cross, both facing it, the path through the cross is complete at rotation 0 and
  is not at rotation 1.
\<close>

lemma cross_rotation_changes_completion:
  "computeCompleteDirs (crossBoard 0) (computeConnections (crossBoard 0)) =
     [((0, 1), [False, False, True, False]), ((1, 0), [False, True, False, False]),
      ((1, 1), [True, False, False, True])]
   \<and> computeCompleteDirs (crossBoard 1) (computeConnections (crossBoard 1)) =
     [((0, 1), [False, False, False, False]), ((1, 0), [False, False, False, False]),
      ((1, 1), [False, False, False, False])]"
  by code_simp

section \<open>Well-formed edge maps\<close>

lemma oppositeDir_less: "oppositeDir dir < 4"
  by (simp add: oppositeDir_def)

lemma oppositeDir_twice: "dir < 4 \<Longrightarrow> oppositeDir (oppositeDir dir) = dir"
  unfolding oppositeDir_def by presburger

lemma less4: "dir < (4::nat) \<longleftrightarrow> dir = 0 \<or> dir = 1 \<or> dir = 2 \<or> dir = 3"
  by auto

lemma neighborOf_neq: "dir < 4 \<Longrightarrow> neighborOf r c dir \<noteq> (r, c)"
  by (auto simp: neighborOf_def less4)

lemma neighborOf_back:
  "dir < 4 \<Longrightarrow> neighborOf (fst (neighborOf r c dir)) (snd (neighborOf r c dir)) (oppositeDir dir) = (r, c)"
  by (auto simp: neighborOf_def oppositeDir_def less4)

lemma neighborOf_inj:
  "d < 4 \<Longrightarrow> d' < 4 \<Longrightarrow> neighborOf r c d = neighborOf r c d' \<Longrightarrow> d = d'"
  by (auto simp: neighborOf_def less4 split: if_splits)

lemma neighborCells_nth: "dir < 4 \<Longrightarrow> neighborCells r c ! dir = neighborOf r c dir"
  by (auto simp: neighborCells_def neighborOf_def less4)

lemma edgesAt_update: "edgesAt (AList.update k v m) j = (if j = k then v else edgesAt m j)"
  by (simp add: edgesAt_def update_conv')

lemma edgesAt_setLink:
  "a \<noteq> b \<Longrightarrow> edgesAt (setLink m a b dir v) k =
     (if k = b then (edgesAt m b)[oppositeDir dir := v]
      else if k = a then (edgesAt m a)[dir := v] else edgesAt m k)"
  by (simp add: setLink_def Let_def edgesAt_update)

lemma keys_update: "fst ` set (AList.update k v m) = insert k (fst ` set m)"
proof -
  have "set (map fst (AList.update k v m)) = insert k (set (map fst m))"
    by (simp add: update_keys insert_absorb)
  then show ?thesis by simp
qed

lemma keys_setLink: "fst ` set (setLink m a b dir v) = insert b (insert a (fst ` set m))"
  by (simp add: setLink_def Let_def keys_update)

lemma distinct_setLink: "distinct (map fst m) \<Longrightarrow> distinct (map fst (setLink m a b dir v))"
  by (simp add: setLink_def Let_def distinct_update)

lemma length_noEdges: "length noEdges = 4"
  by (simp add: noEdges_def)

lemma flag_noEdges: "flag noEdges dir = False"
  by (auto simp: noEdges_def flag_def less4 nth_Cons split: nat.splits)

lemma wellFormed_iff:
  "wellFormed rows cols m \<longleftrightarrow>
     distinct (map fst m) \<and> (\<forall>k \<in> fst ` set m. inGrid rows cols k) \<and>
     (\<forall>k. length (edgesAt m k) = 4) \<and>
     (\<forall>k dir. edgeOpen m k dir \<longrightarrow>
         inGrid rows cols k \<and> inGrid rows cols (neighborOf (fst k) (snd k) dir) \<and>
         edgeOpen m (neighborOf (fst k) (snd k) dir) (oppositeDir dir))"
  (is "?L \<longleftrightarrow> ?R")
proof
  assume L: ?L
  then have d: "distinct (map fst m)"
    and e: "\<And>k e. (k, e) \<in> set m \<Longrightarrow> inGrid rows cols k \<and> length e = 4 \<and>
          (\<forall>dir < 4. e ! dir \<longrightarrow> inGrid rows cols (neighborOf (fst k) (snd k) dir) \<and>
              edgeOpen m (neighborOf (fst k) (snd k) dir) (oppositeDir dir))"
    by (auto simp: wellFormed_def list_all_iff less4)
  have len: "length (edgesAt m k) = 4" for k
    using e [of k] by (auto simp: edgesAt_def length_noEdges split: option.splits dest: map_of_SomeD)
  have "inGrid rows cols k \<and> inGrid rows cols (neighborOf (fst k) (snd k) dir) \<and>
         edgeOpen m (neighborOf (fst k) (snd k) dir) (oppositeDir dir)"
    if o: "edgeOpen m k dir" for k dir
  proof (cases "map_of m k")
    case None
    with o show ?thesis by (simp add: edgeOpen_def edgesAt_def flag_noEdges)
  next
    case (Some x)
    then have "(k, x) \<in> set m" by (rule map_of_SomeD)
    from e [OF this] o Some show ?thesis
      by (auto simp: edgeOpen_def edgesAt_def flag_def)
  qed
  with d e len show ?R by fastforce
next
  assume R: ?R
  then have d: "distinct (map fst m)" by simp
  have "inGrid rows cols k \<and> length e = 4 \<and>
          (\<forall>dir < 4. e ! dir \<longrightarrow> inGrid rows cols (neighborOf (fst k) (snd k) dir) \<and>
              edgeOpen m (neighborOf (fst k) (snd k) dir) (oppositeDir dir))"
    if "(k, e) \<in> set m" for k e
  proof -
    from that d have s: "map_of m k = Some e" by simp
    then have ea: "edgesAt m k = e" by (simp add: edgesAt_def)
    from that have "k \<in> fst ` set m" by (rule rev_image_eqI) simp
    with R have g: "inGrid rows cols k" by blast
    from R ea have l: "length e = 4" by metis
    have "inGrid rows cols (neighborOf (fst k) (snd k) dir) \<and>
              edgeOpen m (neighborOf (fst k) (snd k) dir) (oppositeDir dir)"
      if "dir < 4" "e ! dir" for dir
    proof -
      from that l ea have "edgeOpen m k dir" by (simp add: edgeOpen_def flag_def)
      with R show ?thesis by blast
    qed
    with g l show ?thesis by blast
  qed
  with d show ?L
    by (auto simp: wellFormed_def list_all_iff)
qed

lemma wellFormed_length: "wellFormed rows cols m \<Longrightarrow> length (edgesAt m k) = 4"
  unfolding wellFormed_iff by blast

lemma wellFormed_open:
  "wellFormed rows cols m \<Longrightarrow> edgeOpen m k dir \<Longrightarrow>
     dir < 4 \<and> inGrid rows cols k \<and> inGrid rows cols (neighborOf (fst k) (snd k) dir) \<and>
     edgeOpen m (neighborOf (fst k) (snd k) dir) (oppositeDir dir)"
proof -
  assume wf: "wellFormed rows cols m" and o: "edgeOpen m k dir"
  from wf have "length (edgesAt m k) = 4" by (rule wellFormed_length)
  with o have "dir < 4" by (simp add: edgeOpen_def flag_def)
  with wf o show ?thesis unfolding wellFormed_iff by blast
qed

lemma wellFormed_keys: "wellFormed rows cols m \<Longrightarrow> k \<in> fst ` set m \<Longrightarrow> inGrid rows cols k"
  unfolding wellFormed_iff by blast

lemma edgeOpen_setLink:
  assumes "a \<noteq> b" and "dir < 4" and "length (edgesAt m a) = 4" and "length (edgesAt m b) = 4"
  shows "edgeOpen (setLink m a b dir v) k d \<longleftrightarrow>
     (if (k = a \<and> d = dir) \<or> (k = b \<and> d = oppositeDir dir) then v else edgeOpen m k d)"
  using assms oppositeDir_less [of dir]
  by (auto simp: edgeOpen_def edgesAt_setLink flag_def nth_list_update)

lemma length_edgesAt_setLink:
  assumes "a \<noteq> b"
  shows "length (edgesAt (setLink m a b dir v) k) = length (edgesAt m k)"
  using assms by (auto simp: edgesAt_setLink)

lemma wellFormed_setLink:
  assumes wf: "wellFormed rows cols m" and a: "inGrid rows cols (r, c)" and dir: "dir < 4"
    and b: "inGrid rows cols (neighborOf r c dir)"
  shows "wellFormed rows cols (setLink m (r, c) (neighborOf r c dir) dir v)"
proof -
  let ?b = "neighborOf r c dir"
  let ?m = "setLink m (r, c) ?b dir v"
  have ne: "(r, c) \<noteq> ?b" using neighborOf_neq [OF dir, of r c] by simp
  note len = wellFormed_length [OF wf]
  note eo = edgeOpen_setLink [OF ne dir len len]
  have rev: "neighborOf (fst ?b) (snd ?b) (oppositeDir dir) = (r, c)"
    by (rule neighborOf_back [OF dir])
  have 1: "distinct (map fst ?m)"
    using wf by (simp add: wellFormed_iff distinct_setLink)
  have 2: "\<forall>k \<in> fst ` set ?m. inGrid rows cols k"
    using wf a b by (auto simp: keys_setLink wellFormed_iff)
  have 3: "\<forall>k. length (edgesAt ?m k) = 4"
    by (simp add: length_edgesAt_setLink [OF ne] len)
  have 4: "inGrid rows cols k \<and> inGrid rows cols (neighborOf (fst k) (snd k) d) \<and>
         edgeOpen ?m (neighborOf (fst k) (snd k) d) (oppositeDir d)"
    if o: "edgeOpen ?m k d" for k d
  proof (cases "(k = (r, c) \<and> d = dir) \<or> (k = ?b \<and> d = oppositeDir dir)")
    case True
    with o have v: v by (simp add: eo)
    from True show ?thesis
    proof
      assume "k = (r, c) \<and> d = dir"
      with a b v show ?thesis by (simp add: eo)
    next
      assume "k = ?b \<and> d = oppositeDir dir"
      with a b v rev dir show ?thesis by (simp add: eo oppositeDir_twice)
    qed
  next
    case False
    with o have old: "edgeOpen m k d" by (simp add: eo)
    note w = wellFormed_open [OF wf old]
    let ?n = "neighborOf (fst k) (snd k) d"
    have "\<not> ((?n = (r, c) \<and> oppositeDir d = dir) \<or> (?n = ?b \<and> oppositeDir d = oppositeDir dir))"
    proof
      assume "(?n = (r, c) \<and> oppositeDir d = dir) \<or> (?n = ?b \<and> oppositeDir d = oppositeDir dir)"
      then show False
      proof
        assume h: "?n = (r, c) \<and> oppositeDir d = dir"
        have "neighborOf (fst ?n) (snd ?n) (oppositeDir d) = (fst k, snd k)"
          using w by (intro neighborOf_back) simp
        with h have "k = ?b" by (cases k) simp
        moreover have "d = oppositeDir dir"
          using h w oppositeDir_twice [of d] by auto
        ultimately show False using False by simp
      next
        assume h: "?n = ?b \<and> oppositeDir d = oppositeDir dir"
        then have "oppositeDir (oppositeDir d) = oppositeDir (oppositeDir dir)" by simp
        then have dd: "d = dir" using w dir by (simp add: oppositeDir_twice)
        have "neighborOf (fst ?n) (snd ?n) (oppositeDir d) = (fst k, snd k)"
          using w by (intro neighborOf_back) simp
        with h dd rev have "k = (r, c)" by (cases k) simp
        with dd False show False by simp
      qed
    qed
    with w show ?thesis by (auto simp: eo)
  qed
  from 1 2 3 4 show ?thesis
    unfolding wellFormed_iff by blast
qed

lemma carveNeighbors_props:
  assumes "(nr, nc, dir) \<in> set (carveNeighbors rows cols visited r c)" and "inGrid rows cols (r, c)"
  shows "dir < 4 \<and> (nr, nc) = neighborOf r c dir \<and> inGrid rows cols (nr, nc)"
  using assms by (auto simp: carveNeighbors_def neighborOf_def inGrid_def split: if_splits)

lemma carve_wellFormed:
  "wellFormed rows cols m \<Longrightarrow> (\<forall>(r, c, p) \<in> set stack. inGrid rows cols (r, c)) \<Longrightarrow>
   wellFormed rows cols (fst (carve rows cols (m, visited, stack, g)))"
proof (induction rows cols "(m, visited, stack, g)" arbitrary: m visited stack g rule: carve.induct)
  case (1 rows cols m visited g)
  then show ?case by (simp add: carve.simps)
next
  case (2 rows cols m visited r c prevDir stack g)
  let ?ns = "carveNeighbors rows cols visited r c"
  show ?case
  proof (cases "?ns = []")
    case True
    with 2 show ?thesis by (simp add: carve.simps(2) [of rows cols m visited r c prevDir stack g])
  next
    case False
    obtain nr nc dir g' where pk: "pickNeighbor prevDir ?ns g = ((nr, nc, dir), g')"
      by (metis prod.exhaust)
    from pickNeighbor_mem [OF False pk] have mem: "(nr, nc, dir) \<in> set ?ns" .
    have rc: "inGrid rows cols (r, c)" using 2(4) by simp
    from carveNeighbors_props [OF mem rc]
    have p: "dir < 4" "(nr, nc) = neighborOf r c dir" "inGrid rows cols (neighborOf r c dir)"
      by auto
    have wf: "wellFormed rows cols (setLink m (r, c) (nr, nc) dir True)"
      unfolding p(2) using 2(3) rc p(1) p(3) by (rule wellFormed_setLink)
    have st: "\<forall>(r, c, p) \<in> set ((nr, nc, Some dir) # (r, c, prevDir) # stack). inGrid rows cols (r, c)"
      using 2(4) p(3) p(2) by simp
    have "wellFormed rows cols (fst (carve rows cols
        (setLink m (r, c) (nr, nc) dir True, (nr, nc) # visited,
         (nr, nc, Some dir) # (r, c, prevDir) # stack, g')))"
      by (rule 2(2) [OF refl False refl pk [symmetric] refl refl refl wf st])
    with False pk show ?thesis
      by (simp add: carve.simps(2) [of rows cols m visited r c prevDir stack g])
  qed
qed

lemma wellFormed_initial:
  "0 < rows \<Longrightarrow> 0 < cols \<Longrightarrow> wellFormed rows cols [((0, 0), noEdges)]"
  by (simp add: wellFormed_def inGrid_def noEdges_def)

lemma carveStart_wellFormed:
  "0 < rows \<Longrightarrow> 0 < cols \<Longrightarrow> wellFormed rows cols (fst (carveStart rows cols g))"
  unfolding carveStart_def
  by (rule carve_wellFormed) (simp_all add: wellFormed_initial inGrid_def)

lemma set_gridCells: "set (gridCells rows cols) = gridSet rows cols"
  by (auto simp: gridCells_def gridSet_def)

lemma gridSet_inGrid: "k \<in> gridSet rows cols \<longleftrightarrow> inGrid rows cols k"
  by (cases k) (auto simp: gridSet_def inGrid_def)

lemma gridCells_inGrid: "k \<in> set (gridCells rows cols) \<longleftrightarrow> inGrid rows cols k"
  by (simp add: set_gridCells gridSet_inGrid)

lemma candidates_good: "x \<in> set (candidates rows cols) \<Longrightarrow> goodCandidate rows cols x"
  by (auto simp: candidates_def goodCandidate_def gridCells_inGrid inGrid_def split: if_splits)

lemma set_swapAt: "i < length xs \<Longrightarrow> j < length xs \<Longrightarrow> set (swapAt i j xs) = set xs"
  unfolding swapAt_def by (rule set_swap)

lemma length_swapAt: "length (swapAt i j xs) = length xs"
  by (simp add: swapAt_def)

lemma randomNext_swapIndex:
  assumes "randomNext g = (u, g1)" and "i < n"
  shows "i + randIndex u (n - i) < n"
  using randIndex_less [of u "n - i"] randomNext_range [OF assms(1)] assms(2) by simp

lemma extraEdges_wellFormed:
  "wellFormed rows cols m \<Longrightarrow> (\<forall>x \<in> set cands. goodCandidate rows cols x) \<Longrightarrow>
   wellFormed rows cols (fst (extraEdges rows cols i (cands, m, added, g)))"
proof (induction "length cands - i" arbitrary: i cands m added g rule: less_induct)
  case less
  show ?case
  proof (cases "i < length cands \<and> added < extraEdgesTarget rows cols")
    case False
    show ?thesis
      by (simp only: extraEdges.simps [of rows cols i cands m added g] if_not_P [OF False]
          fst_conv less.prems)
  next
    case True
    obtain u g1 where rn: "randomNext g = (u, g1)" by (cases "randomNext g")
    define cands1 where "cands1 = swapAt i (i + randIndex u (length cands - i)) cands"
    obtain r1 c1 r2 c2 where ci: "cands1 ! i = (r1, c1, r2, c2)" by (metis prod.exhaust)
    define dir :: nat where "dir = (if r2 > r1 then 2 else if r2 < r1 then 0 else if c2 > c1 then 1 else 3)"
    have sw: "i + randIndex u (length cands - i) < length cands"
      using rn True by (intro randomNext_swapIndex) simp_all
    have set1: "set cands1 = set cands"
      unfolding cands1_def using True sw by (intro set_swapAt) simp_all
    then have good1: "\<forall>x \<in> set cands1. goodCandidate rows cols x"
      using less.prems by simp
    have len1: "length cands1 - (i + 1) < length cands - i"
      using True by (auto simp: cands1_def length_swapAt)
    have "cands1 ! i \<in> set cands1"
      using True by (simp add: cands1_def length_swapAt)
    with good1 ci have gc: "goodCandidate rows cols (r1, c1, r2, c2)" by metis
    then have nb: "(r2, c2) = neighborOf r1 c1 dir" and d4: "dir < 4"
      and ga: "inGrid rows cols (r1, c1)" and gb: "inGrid rows cols (neighborOf r1 c1 dir)"
      by (auto simp: goodCandidate_def dir_def neighborOf_def)
    have wf1: "wellFormed rows cols (setLink m (r1, c1) (r2, c2) dir True)"
      unfolding nb using less.prems(1) ga d4 gb by (rule wellFormed_setLink)
    have wf2: "wellFormed rows cols
        (setLink (setLink m (r1, c1) (r2, c2) dir True) (r1, c1) (r2, c2) dir False)"
      unfolding nb using wf1 [unfolded nb] ga d4 gb by (rule wellFormed_setLink)
    have ih: "wellFormed rows cols m' \<Longrightarrow>
        wellFormed rows cols (fst (extraEdges rows cols (Suc i) (cands1, m', added', g1)))"
      for m' added'
      using len1 good1 by (intro less.hyps) simp_all
    show ?thesis
      using True less.prems(1) wf1 wf2
      by (simp add: extraEdges.simps [of rows cols i cands m added g] rn Let_def
          cands1_def [symmetric] ci dir_def [symmetric] ih)
  qed
qed

lemma shuffle_set:
  "set (fst (shuffle i (xs, g))) = set xs"
proof (induction "length xs - i" arbitrary: i xs g rule: less_induct)
  case less
  show ?case
  proof (cases "i < length xs")
    case False
    then show ?thesis by (simp add: shuffle.simps [of i xs g])
  next
    case True
    obtain u g1 where rn: "randomNext g = (u, g1)" by (cases "randomNext g")
    have sw: "i + randIndex u (length xs - i) < length xs"
      using rn True by (intro randomNext_swapIndex) simp_all
    have "set (fst (shuffle (i + 1) (swapAt i (i + randIndex u (length xs - i)) xs, g1)))
        = set (swapAt i (i + randIndex u (length xs - i)) xs)"
      using True by (intro less.hyps) (simp add: length_swapAt)
    also have "\<dots> = set xs"
      using True sw by (intro set_swapAt)
    finally show ?thesis
      using True by (simp add: shuffle.simps [of i xs g] rn Let_def)
  qed
qed

lemma interior_neighbor:
  "interior rows cols (r, c) \<Longrightarrow> dir < 4 \<Longrightarrow>
   inGrid rows cols (r, c) \<and> inGrid rows cols (neighborOf r c dir)"
  by (auto simp: interior_def inGrid_def neighborOf_def)

lemma promotionTargets_interior:
  "k \<in> set (promotionTargets rows cols m) \<Longrightarrow> interior rows cols k"
  by (auto simp: promotionTargets_def interior_def)

lemma promoteDirs_wellFormed:
  "wellFormed rows cols m \<Longrightarrow> interior rows cols (r, c) \<Longrightarrow> (\<forall>d \<in> set dirs. d < 4) \<Longrightarrow>
   wellFormed rows cols (promoteDirs rows cols m r c dirs)"
proof (induction dirs arbitrary: m)
  case Nil
  then show ?case by simp
next
  case (Cons dir dirs)
  have d4: "dir < 4" using Cons.prems(3) by simp
  note g = interior_neighbor [OF Cons.prems(2) d4]
  have wf1: "wellFormed rows cols (setLink m (r, c) (neighborOf r c dir) dir True)"
    by (rule wellFormed_setLink [OF Cons.prems(1) g [THEN conjunct1] d4 g [THEN conjunct2]])
  have wf2: "wellFormed rows cols
      (setLink (setLink m (r, c) (neighborOf r c dir) dir True) (r, c) (neighborOf r c dir) dir False)"
    by (rule wellFormed_setLink [OF wf1 g [THEN conjunct1] d4 g [THEN conjunct2]])
  have ih: "wellFormed rows cols m' \<Longrightarrow> wellFormed rows cols (promoteDirs rows cols m' r c dirs)" for m'
    using Cons.prems(2,3) by (intro Cons.IH) simp_all
  obtain nr nc where n: "neighborOf r c dir = (nr, nc)" by (cases "neighborOf r c dir")
  show ?case
    using Cons.prems(1) wf1 wf2 by (simp add: n Let_def ih)
qed

lemma promoteAll_wellFormed:
  "wellFormed rows cols m \<Longrightarrow> (\<forall>k \<in> set targets. interior rows cols k) \<Longrightarrow>
   wellFormed rows cols (promoteAll rows cols m targets)"
proof (induction targets arbitrary: m)
  case Nil
  then show ?case by simp
next
  case (Cons k targets)
  obtain r c where k: "k = (r, c)" by (cases k)
  have "wellFormed rows cols (promoteDirs rows cols m r c
          (filter (\<lambda>dir. \<not> flag (edgesAt m (r, c)) dir) [0, 1, 2, 3]))"
    using Cons.prems by (intro promoteDirs_wellFormed) (auto simp: k)
  then show ?case
    using Cons.prems by (simp add: k Cons.IH)
qed

lemma mirrorCoord_inGrid:
  "inGrid rows cols (r, c) \<Longrightarrow> inGrid rows cols (mirrorCoord r c rows cols mode)"
  by (cases mode) (auto simp: inGrid_def)

lemma mirrorDir_less: "dir < 4 \<Longrightarrow> mirrorDir dir mode < 4"
  by (cases mode) (auto simp: flipV_def flipH_def)

lemma mirrorStep_wellFormed:
  assumes "wellFormed rows cols m" and "inGrid rows cols key" and "dir < 4"
  shows "wellFormed rows cols (fst (mirrorStep rows cols key dir mode (m, g)))"
proof -
  obtain mr mc where mc: "mirrorCoord (fst key) (snd key) rows cols mode = (mr, mc)"
    by (cases "mirrorCoord (fst key) (snd key) rows cols mode")
  obtain u g1 where rn: "randomNext g = (u, g1)" by (cases "randomNext g")
  obtain nr nc where nb: "neighborOf mr mc (mirrorDir dir mode) = (nr, nc)"
    by (cases "neighborOf mr mc (mirrorDir dir mode)")
  have gm: "inGrid rows cols (mr, mc)"
    using mirrorCoord_inGrid [of rows cols "fst key" "snd key" mode] assms(2) mc by simp
  have "wellFormed rows cols (setLink m (mr, mc) (nr, nc) (mirrorDir dir mode) True)"
    if "\<not> (nr < 0 \<or> nc < 0 \<or> nr \<ge> rows \<or> nc \<ge> cols)"
  proof -
    from that have "inGrid rows cols (neighborOf mr mc (mirrorDir dir mode))"
      by (simp add: nb inGrid_def)
    from wellFormed_setLink [OF assms(1) gm mirrorDir_less [OF assms(3)] this]
    show ?thesis by (simp add: nb)
  qed
  then show ?thesis
    using assms(1) by (simp add: mirrorStep_def mc rn nb Let_def addEdge_def)
qed

lemma fold_invariant:
  assumes "P s" and "\<And>x s. x \<in> set xs \<Longrightarrow> P s \<Longrightarrow> P (f x s)"
  shows "P (fold f xs s)"
  using assms by (induction xs arbitrary: s) simp_all

lemma mirrorEdge_wellFormed:
  assumes "wellFormed rows cols (fst s)" and "inGrid rows cols key" and "dir < 4"
  shows "wellFormed rows cols (fst (mirrorEdge rows cols key dir s))"
proof -
  obtain m g where s: "s = (m, g)" by (cases s)
  have "wellFormed rows cols (fst (fold (mirrorStep rows cols key dir) [MirrorV, MirrorH, MirrorVH] (m, g)))"
  proof (rule fold_invariant [where P = "\<lambda>s. wellFormed rows cols (fst s)"])
    show "wellFormed rows cols (fst (m, g))" using assms(1) s by simp
  next
    fix x and s' :: "edgeMap \<times> rng"
    assume "wellFormed rows cols (fst s')"
    then show "wellFormed rows cols (fst (mirrorStep rows cols key dir x s'))"
      using mirrorStep_wellFormed [of rows cols "fst s'" key dir x "snd s'"] assms(2,3) by simp
  qed
  then show ?thesis
    using assms(1) by (simp add: s mirrorEdge_def)
qed

lemma softSymmetry_wellFormed:
  assumes "wellFormed rows cols (fst s)"
  shows "wellFormed rows cols (fst (softSymmetry rows cols s))"
proof -
  obtain m g where s: "s = (m, g)" by (cases s)
  have keys: "\<And>k. k \<in> set (map fst m) \<Longrightarrow> inGrid rows cols k"
    using wellFormed_keys [of rows cols m] assms s by simp
  have "wellFormed rows cols
      (fst (fold (\<lambda>key. fold (mirrorEdge rows cols key) [0, 1, 2, 3]) (map fst m) (m, g)))"
  proof (rule fold_invariant [where P = "\<lambda>s. wellFormed rows cols (fst s)"])
    show "wellFormed rows cols (fst (m, g))" using assms s by simp
  next
    fix key and s' :: "edgeMap \<times> rng"
    assume k: "key \<in> set (map fst m)" and w: "wellFormed rows cols (fst s')"
    show "wellFormed rows cols (fst (fold (mirrorEdge rows cols key) [0, 1, 2, 3] s'))"
    proof (rule fold_invariant [where P = "\<lambda>s. wellFormed rows cols (fst s)"])
      show "wellFormed rows cols (fst s')" by (rule w)
    next
      fix dir :: nat and s'' :: "edgeMap \<times> rng"
      assume "dir \<in> set [0, 1, 2, 3]" and "wellFormed rows cols (fst s'')"
      then show "wellFormed rows cols (fst (mirrorEdge rows cols key dir s''))"
        using keys [OF k] by (intro mirrorEdge_wellFormed) auto
    qed
  qed
  then show ?thesis by (simp add: s softSymmetry_def)
qed

lemma length4_cases: "length e = 4 \<Longrightarrow> \<exists>a b c d. e = [a, b, c, d]"
  by (auto simp: numeral_eq_Suc length_Suc_conv)

lemma openDirs_of_degree:
  assumes "length e = 4" and "0 < degree e"
  shows "filter (\<lambda>d. flag e d) [0, 1, 2, 3] \<noteq> []"
proof
  assume "filter (\<lambda>d. flag e d) [0, 1, 2, 3] = []"
  then have "\<forall>d \<in> set [0, 1, 2, 3]. \<not> flag e d"
    unfolding filter_empty_conv by blast
  then have f: "\<not> flag e 0" "\<not> flag e 1" "\<not> flag e 2" "\<not> flag e 3" by simp_all
  from length4_cases [OF assms(1)] obtain a b c d where e: "e = [a, b, c, d]" by blast
  from f have "degree e = 0" unfolding e by (simp add: degree_def flag_def)
  with assms(2) show False by simp
qed

lemma dropBoundaryCross_wellFormed:
  assumes "wellFormed rows cols (fst s)"
  shows "wellFormed rows cols (fst (dropBoundaryCross rows cols key s))"
proof -
  obtain m g where s: "s = (m, g)" by (cases s)
  obtain u g1 where rn: "randomNext g = (u, g1)" by (cases "randomNext g")
  have wf: "wellFormed rows cols m" using assms s by simp
  define dirs where "dirs = filter (\<lambda>d. flag (edgesAt m key) d) [0, 1, 2, 3]"
  define d where "d = dirs ! randIndex u (length dirs)"
  have "wellFormed rows cols (setLink m key (neighborOf (fst key) (snd key) d) d False)"
    if "degree (edgesAt m key) = 4"
  proof -
    have ne: "dirs \<noteq> []"
      unfolding dirs_def using that wellFormed_length [OF wf, of key]
      by (intro openDirs_of_degree) simp_all
    from randomNext_index [OF rn ne] have "d \<in> set dirs" by (simp add: d_def)
    then have "flag (edgesAt m key) d" unfolding dirs_def set_filter by blast
    then have o: "edgeOpen m key d" by (simp add: edgeOpen_def)
    note w = wellFormed_open [OF wf o]
    from wellFormed_setLink [OF wf, of "fst key" "snd key" d False] w
    show ?thesis by simp
  qed
  moreover have "dropBoundaryCross rows cols key (m, g) =
      (if \<not> isBoundaryCell (fst key) (snd key) rows cols then (m, g)
       else if degree (edgesAt m key) \<noteq> 4 then (m, g)
       else (setLink m key (neighborOf (fst key) (snd key) d) d False, g1))"
    unfolding d_def dirs_def
    by (simp only: dropBoundaryCross_def prod.case rn Let_def)
  ultimately show ?thesis
    using wf by (simp add: s)
qed

lemma defensivePass_wellFormed:
  assumes "wellFormed rows cols (fst s)"
  shows "wellFormed rows cols (fst (defensivePass rows cols s))"
  unfolding defensivePass_def
  by (rule fold_invariant [where P = "\<lambda>s. wellFormed rows cols (fst s)"])
     (simp_all add: assms dropBoundaryCross_wellFormed)

lemma canRemoveEdge_wellFormed:
  assumes "wellFormed rows cols m"
  shows "wellFormed rows cols (snd (canRemoveEdge rows cols m r c dir))"
proof -
  obtain nr nc where nb: "neighborOf r c dir = (nr, nc)" by (cases "neighborOf r c dir")
  have "wellFormed rows cols (setLink m (r, c) (nr, nc) dir False) \<and>
        wellFormed rows cols (setLink (setLink m (r, c) (nr, nc) dir False) (r, c) (nr, nc) dir True)"
    if "flag (edgesAt m (r, c)) dir"
  proof -
    from that have o: "edgeOpen m (r, c) dir" by (simp add: edgeOpen_def)
    note w = wellFormed_open [OF assms o]
    have 1: "wellFormed rows cols (setLink m (r, c) (neighborOf r c dir) dir False)"
      using w by (intro wellFormed_setLink [OF assms]) simp_all
    have 2: "wellFormed rows cols
        (setLink (setLink m (r, c) (neighborOf r c dir) dir False) (r, c) (neighborOf r c dir) dir True)"
      using w by (intro wellFormed_setLink [OF 1]) simp_all
    from 1 2 show ?thesis by (simp add: nb)
  qed
  then show ?thesis
    using assms by (simp add: canRemoveEdge_def nb Let_def)
qed

lemma removeFirst_wellFormed:
  "wellFormed rows cols m \<Longrightarrow> wellFormed rows cols (snd (removeFirst rows cols m r c dirs))"
proof (induction dirs arbitrary: m)
  case Nil
  then show ?case by simp
next
  case (Cons dir dirs)
  obtain ok m1 where cr: "canRemoveEdge rows cols m r c dir = (ok, m1)"
    by (cases "canRemoveEdge rows cols m r c dir")
  have "wellFormed rows cols m1"
    using canRemoveEdge_wellFormed [OF Cons.prems, of r c dir] cr by simp
  then show ?case
    using Cons.IH [of m1] by (simp add: cr)
qed

lemma reduceCrosses_wellFormed:
  "wellFormed rows cols m \<Longrightarrow>
   wellFormed rows cols (fst (reduceCrosses rows cols i (cells, m, n, g)))"
proof (induction "length cells - i" arbitrary: i cells m n g rule: less_induct)
  case less
  show ?case
  proof (cases "i < length cells \<and> n > maxCrosses")
    case False
    show ?thesis
      by (simp only: reduceCrosses.simps [of rows cols i cells m n g] if_not_P [OF False]
          fst_conv less.prems)
  next
    case True
    obtain u g1 where rn: "randomNext g = (u, g1)" by (cases "randomNext g")
    define cells1 where "cells1 = swapAt i (i + randIndex u (length cells - i)) cells"
    obtain r c where ci: "cells1 ! i = (r, c)" by (cases "cells1 ! i")
    obtain removed m1 where rf: "removeFirst rows cols m r c [0, 1, 2, 3] = (removed, m1)"
      by (cases "removeFirst rows cols m r c [0, 1, 2, 3]")
    have wf1: "wellFormed rows cols m1"
      using removeFirst_wellFormed [OF less.prems, of r c "[0, 1, 2, 3]"] rf by simp
    have len1: "length cells1 - Suc i < length cells - i"
      using True by (auto simp: cells1_def length_swapAt)
    have "wellFormed rows cols (fst (reduceCrosses rows cols (i + 1) (cells1, m1, n', g1)))" for n'
      using len1 wf1 by (intro less.hyps) simp_all
    moreover have "reduceCrosses rows cols i (cells, m, n, g) =
        reduceCrosses rows cols (i + 1)
          (cells1, m1, if removed then countCrosses rows cols m1 else n, g1)"
      by (simp only: reduceCrosses.simps [of rows cols i cells m n g] if_P [OF True] rn
          Let_def prod.case cells1_def [symmetric] ci rf)
    ultimately show ?thesis by simp
  qed
qed

lemma reduceTJunctions_wellFormed:
  "wellFormed rows cols m \<Longrightarrow>
   wellFormed rows cols (fst (reduceTJunctions rows cols i (cells, m, n, g)))"
proof (induction "length cells - i" arbitrary: i cells m n g rule: less_induct)
  case less
  show ?case
  proof (cases "i < length cells \<and> n > maxTJunctions rows cols")
    case False
    show ?thesis
      by (simp only: reduceTJunctions.simps [of rows cols i cells m n g] if_not_P [OF False]
          fst_conv less.prems)
  next
    case True
    obtain u g1 where rn: "randomNext g = (u, g1)" by (cases "randomNext g")
    define cells1 where "cells1 = swapAt i (i + randIndex u (length cells - i)) cells"
    obtain r c where ci: "cells1 ! i = (r, c)" by (cases "cells1 ! i")
    define dirs where "dirs = filter (\<lambda>dir. flag (edgesAt m (r, c)) dir) [0, 1, 2, 3]"
    obtain removed m1 where rf: "removeFirst rows cols m r c dirs = (removed, m1)"
      by (cases "removeFirst rows cols m r c dirs")
    have wf1: "wellFormed rows cols m1"
      using removeFirst_wellFormed [OF less.prems, of r c dirs] rf by simp
    have len1: "length cells1 - Suc i < length cells - i"
      using True by (auto simp: cells1_def length_swapAt)
    have "wellFormed rows cols (fst (reduceTJunctions rows cols (i + 1) (cells1, m1, n', g1)))" for n'
      using len1 wf1 by (intro less.hyps) simp_all
    moreover have "reduceTJunctions rows cols i (cells, m, n, g) =
        reduceTJunctions rows cols (i + 1)
          (cells1, m1, if removed then countTJunctions rows cols m1 else n, g1)"
      by (simp only: reduceTJunctions.simps [of rows cols i cells m n g] if_P [OF True] rn
          Let_def prod.case cells1_def [symmetric] ci dirs_def [symmetric] rf)
    ultimately show ?thesis by simp
  qed
qed

lemma enforceCrossCap_wellFormed:
  "wellFormed rows cols (fst s) \<Longrightarrow> wellFormed rows cols (fst (enforceCrossCap rows cols s))"
  by (cases s) (simp add: enforceCrossCap_def reduceCrosses_wellFormed)

lemma enforceTJunctionCap_wellFormed:
  "wellFormed rows cols (fst s) \<Longrightarrow> wellFormed rows cols (fst (enforceTJunctionCap rows cols s))"
  by (cases s) (simp add: enforceTJunctionCap_def reduceTJunctions_wellFormed)

lemma generateSolvedEdges_wellFormed:
  assumes "0 < rows" and "0 < cols"
  shows "wellFormed rows cols (fst (generateSolvedEdges rows cols g))"
proof -
  obtain m1 g1 where 1: "carveStart rows cols g = (m1, g1)" by (cases "carveStart rows cols g")
  obtain m2 g2 where 2: "extraEdges rows cols 0 (candidates rows cols, m1, 0, g1) = (m2, g2)"
    by (cases "extraEdges rows cols 0 (candidates rows cols, m1, 0, g1)")
  obtain targets g3 where 3: "shuffle 0 (promotionTargets rows cols m2, g2) = (targets, g3)"
    by (cases "shuffle 0 (promotionTargets rows cols m2, g2)")
  have w1: "wellFormed rows cols m1"
    using carveStart_wellFormed [OF assms, of g] 1 by simp
  have w2: "wellFormed rows cols m2"
    using extraEdges_wellFormed [OF w1, of "candidates rows cols" 0 0 g1] 2
    by (simp add: candidates_good)
  have "set targets = set (promotionTargets rows cols m2)"
    using shuffle_set [of 0 "promotionTargets rows cols m2" g2] 3 by simp
  then have "\<forall>k \<in> set targets. interior rows cols k"
    by (simp add: promotionTargets_interior)
  with w2 have w3: "wellFormed rows cols (promoteAll rows cols m2 targets)"
    by (rule promoteAll_wellFormed)
  have "wellFormed rows cols (fst (enforceTJunctionCap rows cols (enforceCrossCap rows cols
      (defensivePass rows cols (softSymmetry rows cols (promoteAll rows cols m2 targets, g3))))))"
    by (intro enforceTJunctionCap_wellFormed enforceCrossCap_wellFormed defensivePass_wellFormed
        softSymmetry_wellFormed) (simp add: w3)
  then show ?thesis
    by (simp add: generateSolvedEdges_def 1 2 3 Let_def split: prod.splits)
qed










section \<open>Removing edges keeps the graph connected\<close>




end
